theory Spec2Isabelle
  imports Main
begin

section \<open>Strings and filter ids\<close>

text \<open>
  \<^verbatim>\<open>String.prototype.split\<close> with a one-character separator. The result is never
  empty: the empty string splits into one empty part, and a trailing separator gives a
  trailing empty part. The \<open>[]\<close> branch of the inner case is unreachable.
\<close>

fun split_on :: "char \<Rightarrow> string \<Rightarrow> string list" where
  "split_on c [] = [[]]"
| "split_on c (x # xs) =
     (if x = c then [] # split_on c xs
      else (case split_on c xs of [] \<Rightarrow> [[x]] | p # ps \<Rightarrow> (x # p) # ps))"

text \<open>The template literal \<^verbatim>\<open>`${filterKey}:${filterValue}`\<close>.\<close>

definition filterId :: "string \<Rightarrow> string \<Rightarrow> string" where
  "filterId filterKey filterValue = filterKey @ CHR '':'' # filterValue"

text \<open>
  The destructuring \<^verbatim>\<open>const [key, value] = filterId.split(':')\<close>: the first two parts,
  the rest dropped. A missing second part is \<^verbatim>\<open>undefined\<close>, written \<open>None\<close>; values
  that are matched against record fields are therefore \<open>string option\<close>.
\<close>

definition destructure2 :: "string list \<Rightarrow> string \<times> string option" where
  "destructure2 parts =
     (case parts of
        [] \<Rightarrow> ([], None)
      | [k] \<Rightarrow> (k, None)
      | k # v # rest \<Rightarrow> (k, Some v))"

text \<open>\<^verbatim>\<open>Array.prototype.indexOf\<close>: the first index holding the element, or -1.\<close>

fun indexOf_from :: "'a list \<Rightarrow> 'a \<Rightarrow> nat \<Rightarrow> int" where
  "indexOf_from [] x i = - 1"
| "indexOf_from (y # ys) x i = (if y = x then int i else indexOf_from ys x (Suc i))"

definition indexOf :: "'a list \<Rightarrow> 'a \<Rightarrow> int" where
  "indexOf xs x = indexOf_from xs x 0"

text \<open>
  \<^verbatim>\<open>toLowerCase\<close> on the ASCII letters (other characters are kept), and
  \<^verbatim>\<open>String.prototype.includes\<close>: the query occurs at some offset.
\<close>

definition lower_char :: "char \<Rightarrow> char" where
  "lower_char c =
     (if 65 \<le> (of_char c :: nat) \<and> (of_char c :: nat) \<le> 90
      then char_of ((of_char c :: nat) + 32) else c)"

definition toLowerCase :: "string \<Rightarrow> string" where
  "toLowerCase s = map lower_char s"

definition includes_str :: "string \<Rightarrow> string \<Rightarrow> bool" where
  "includes_str s q =
     list_ex (\<lambda>i. take (length q) (drop i s) = q) [0 ..< Suc (length s)]"

text \<open>
  A JavaScript \<^verbatim>\<open>Set\<close> of strings keeps insertion order and holds no element twice:
  a list, \<^verbatim>\<open>add\<close> appending an absent element and \<^verbatim>\<open>delete\<close> removing it.
\<close>

definition set_add :: "'a list \<Rightarrow> 'a \<Rightarrow> 'a list" where
  "set_add xs x = (if x \<in> set xs then xs else xs @ [x])"

definition set_delete :: "'a list \<Rightarrow> 'a \<Rightarrow> 'a list" where
  "set_delete xs x = removeAll x xs"

text \<open>
  The remainder operator \<^verbatim>\<open>%\<close> on integers: the sign follows the dividend.
\<close>

definition js_rem :: "int \<Rightarrow> int \<Rightarrow> int" where
  "js_rem a b = sgn a * (\<bar>a\<bar> mod \<bar>b\<bar>)"

section \<open>Records of the collection\<close>

text \<open>
  A dataset as the filter manager reads it. \<^verbatim>\<open>scenes\<close>, \<^verbatim>\<open>actions\<close> and \<^verbatim>\<open>objects\<close>
  are guarded by the code before use and may be absent (\<open>None\<close>); \<^verbatim>\<open>robot\<close> is absent,
  one string or an array of strings; \<^verbatim>\<open>endEffector\<close> is a string or absent. Every
  object entry carries its \<^verbatim>\<open>hierarchy\<close>, an array of segment strings.
\<close>

record object_entry =
  hierarchy :: "string list"

datatype robot_field = RobotAbsent | RobotOne string | RobotMany "string list"

record dataset =
  name :: string
  scenes :: "string list option"
  robot :: robot_field
  endEffector :: "string option"
  actions :: "string list option"
  objects :: "object_entry list option"

text \<open>\<^verbatim>\<open>Array.isArray(ds.robot) ? ds.robot : [ds.robot]\<close>, an absent field giving \<^verbatim>\<open>[undefined]\<close>.\<close>

fun robots_of :: "robot_field \<Rightarrow> string option list" where
  "robots_of RobotAbsent = [None]"
| "robots_of (RobotOne r) = [Some r]"
| "robots_of (RobotMany rs) = map Some rs"

section \<open>Facet groups and the hierarchy tree\<close>

text \<open>
  A hierarchy node \<^verbatim>\<open>{ children: new Map(), isLeaf: ... }\<close>. A \<^verbatim>\<open>Map\<close> keeps insertion
  order and has each key once: an association list, read with \<open>map_of\<close>.
\<close>

datatype node = Node (children: "(string \<times> node) list") (isLeaf: bool)

type_synonym hierarchy_map = "(string \<times> node) list"

text \<open>Replacing the entry of a key that is present (the node object is mutated in place).\<close>

fun map_replace :: "hierarchy_map \<Rightarrow> string \<Rightarrow> node \<Rightarrow> hierarchy_map" where
  "map_replace [] k n = []"
| "map_replace ((k', n') # es) k n =
     (if k' = k then (k, n) # es else (k', n') # map_replace es k n)"

text \<open>
  \<^verbatim>\<open>addToHierarchy(hierarchyMap, levels)\<close>. The loop walks down one level per segment;
  a segment that is absent gets a fresh node whose \<^verbatim>\<open>isLeaf\<close> says whether it is the last
  segment (\<^verbatim>\<open>idx === levels.length - 1\<close>), a segment that is present keeps its node as
  it is. The walk continues in the node's children.
\<close>

fun addToHierarchy :: "hierarchy_map \<Rightarrow> string list \<Rightarrow> hierarchy_map" where
  "addToHierarchy current [] = current"
| "addToHierarchy current (level # rest) =
     (case map_of current level of
        None \<Rightarrow> current @ [(level, Node (addToHierarchy [] rest) (rest = []))]
      | Some n \<Rightarrow>
          map_replace current level (Node (addToHierarchy (children n) rest) (isLeaf n)))"

datatype group_values = Flat "string list" | Hierarchical hierarchy_map

record filter_group =
  title :: string
  values_of :: group_values

type_synonym filter_groups = "(string \<times> filter_group) list"

section \<open>The filter manager and its environment\<close>

text \<open>
  What a pending timer runs when it fires: the debounced update armed by
  \<^verbatim>\<open>scheduleFilterUpdate\<close>, or the tooltip display armed by \<^verbatim>\<open>showTooltip\<close> for one
  filter key and value.
\<close>

datatype timer_callback = FilterUpdateCallback | TooltipCallback string string

text \<open>
  The fields of \<^verbatim>\<open>FilterManager\<close> that carry logic, followed by the part of the
  browser the class talks to: the pending timers (\<^verbatim>\<open>setTimeout\<close> hands out fresh ids,
  the first being 1), the number of \<^verbatim>\<open>filtersChanged\<close> events the class has dispatched
  so far, and what the tooltip element shows. Option elements, tags and CSS classes are left out.
  The model has no clock: a pending timer may fire at any later step.
\<close>

record filter_manager =
  datasets :: "dataset list"
  filterGroups :: filter_groups
  selectedFilters :: "string list"
  pendingFilterUpdate :: "nat option"
  filterFinderMatches :: "string list"
  filterFinderCurrentIndex :: int
  tooltipElement :: bool
  tooltipTimeout :: "nat option"
  filterCounts :: "(string \<times> nat) list"
  timers :: "(nat \<times> timer_callback) list"
  nextTimerId :: nat
  filtersChangedEvents :: nat
  tooltipShown :: "(string \<times> nat) option"

text \<open>The constructor.\<close>

definition new_filter_manager :: "dataset list \<Rightarrow> filter_manager" where
  "new_filter_manager dss =
     \<lparr> datasets = dss, filterGroups = [], selectedFilters = [],
       pendingFilterUpdate = None, filterFinderMatches = [],
       filterFinderCurrentIndex = - 1, tooltipElement = False, tooltipTimeout = None,
       filterCounts = [], timers = [], nextTimerId = 1, filtersChangedEvents = 0,
       tooltipShown = None \<rparr>"

subsection \<open>Timers\<close>

definition setTimeout :: "timer_callback \<Rightarrow> filter_manager \<Rightarrow> nat \<times> filter_manager" where
  "setTimeout cb st =
     (nextTimerId st,
      st\<lparr>timers := timers st @ [(nextTimerId st, cb)], nextTimerId := Suc (nextTimerId st)\<rparr>)"

definition clearTimeout :: "nat \<Rightarrow> filter_manager \<Rightarrow> filter_manager" where
  "clearTimeout t st = st\<lparr>timers := filter (\<lambda>e. fst e \<noteq> t) (timers st)\<rparr>"

text \<open>
  A test such as \<^verbatim>\<open>if (this.pendingFilterUpdate)\<close> holds for a timer id that is neither
  null nor 0; below it is the case distinction on the field followed by \<open>t \<noteq> 0\<close>.
\<close>

subsection \<open>Building the facet groups\<close>

record groups_acc =
  scene_values :: "string list"
  robot_values :: "string list"
  end_values :: "string list"
  action_values :: "string list"
  object_values :: hierarchy_map

definition collect_dataset :: "dataset \<Rightarrow> groups_acc \<Rightarrow> groups_acc" where
  "collect_dataset ds g =
     (let g1 = (case scenes ds of None \<Rightarrow> g
                | Some ss \<Rightarrow> g\<lparr>scene_values := fold (\<lambda>s vs. set_add vs s) ss (scene_values g)\<rparr>);
          g2 = (case robot ds of
                  RobotAbsent \<Rightarrow> g1
                | RobotOne r \<Rightarrow>
                    if r = [] then g1 else g1\<lparr>robot_values := set_add (robot_values g1) r\<rparr>
                | RobotMany rs \<Rightarrow>
                    g1\<lparr>robot_values := fold (\<lambda>r vs. set_add vs r) rs (robot_values g1)\<rparr>);
          g3 = (case endEffector ds of None \<Rightarrow> g2
                | Some e \<Rightarrow> if e = [] then g2 else g2\<lparr>end_values := set_add (end_values g2) e\<rparr>);
          g4 = (case actions ds of None \<Rightarrow> g3
                | Some acts \<Rightarrow>
                    g3\<lparr>action_values := fold (\<lambda>a vs. set_add vs a) acts (action_values g3)\<rparr>)
      in (case objects ds of None \<Rightarrow> g4
          | Some objs \<Rightarrow>
              g4\<lparr>object_values :=
                   fold (\<lambda>obj m. addToHierarchy m (hierarchy obj)) objs (object_values g4)\<rparr>))"

definition empty_groups :: groups_acc where
  "empty_groups =
     \<lparr> scene_values = [], robot_values = [], end_values = [], action_values = [],
       object_values = [] \<rparr>"

definition groups_of :: "groups_acc \<Rightarrow> filter_groups" where
  "groups_of g =
     [(''scene'', \<lparr>title = ''scene'', values_of = Flat (scene_values g)\<rparr>),
      (''robot'', \<lparr>title = ''robot'', values_of = Flat (robot_values g)\<rparr>),
      (''end'', \<lparr>title = ''end effector'', values_of = Flat (end_values g)\<rparr>),
      (''action'', \<lparr>title = ''action'', values_of = Flat (action_values g)\<rparr>),
      (''object'', \<lparr>title = ''operation object'', values_of = Hierarchical (object_values g)\<rparr>)]"

text \<open>The keys of the five groups, in declaration order.\<close>

definition facet_keys :: "string list" where
  "facet_keys = [''scene'', ''robot'', ''end'', ''action'', ''object'']"

definition buildFilterGroups :: "filter_manager \<Rightarrow> filter_manager" where
  "buildFilterGroups st =
     st\<lparr>filterGroups := groups_of (fold collect_dataset (datasets st) empty_groups)\<rparr>"

text \<open>The tree of the hierarchical group (empty before the groups are built).\<close>

definition object_tree :: "filter_manager \<Rightarrow> hierarchy_map" where
  "object_tree st =
     (case map_of (filterGroups st) ''object'' of
        None \<Rightarrow> []
      | Some grp \<Rightarrow> (case values_of grp of Flat vs \<Rightarrow> [] | Hierarchical m \<Rightarrow> m))"

subsection \<open>Affected counts\<close>

text \<open>The per-record test of \<^verbatim>\<open>calculateAffectedCount\<close>, one branch per filter key.\<close>

definition count_match :: "string \<Rightarrow> string \<Rightarrow> dataset \<Rightarrow> bool" where
  "count_match filterKey filterValue ds =
     (if filterKey = ''scene'' then
        (case scenes ds of None \<Rightarrow> False | Some ss \<Rightarrow> filterValue \<in> set ss)
      else if filterKey = ''robot'' then Some filterValue \<in> set (robots_of (robot ds))
      else if filterKey = ''end'' then endEffector ds = Some filterValue
      else if filterKey = ''action'' then
        (case actions ds of None \<Rightarrow> False | Some acts \<Rightarrow> filterValue \<in> set acts)
      else if filterKey = ''object'' then
        (case objects ds of None \<Rightarrow> False
         | Some objs \<Rightarrow> list_ex (\<lambda>obj. filterValue \<in> set (hierarchy obj)) objs)
      else False)"

definition calculateAffectedCount :: "filter_manager \<Rightarrow> string \<Rightarrow> string \<Rightarrow> nat" where
  "calculateAffectedCount st filterKey filterValue =
     fold (\<lambda>ds count. if count_match filterKey filterValue ds then Suc count else count)
       (datasets st) 0"

text \<open>\<^verbatim>\<open>Map.prototype.set\<close> on an association list: an existing key keeps its place.\<close>

fun map_set :: "('k \<times> 'v) list \<Rightarrow> 'k \<Rightarrow> 'v \<Rightarrow> ('k \<times> 'v) list" where
  "map_set [] k v = [(k, v)]"
| "map_set ((k', v') # es) k v = (if k' = k then (k, v) # es else (k', v') # map_set es k v)"

function updateHierarchyCounts ::
  "filter_manager \<Rightarrow> string \<Rightarrow> hierarchy_map \<Rightarrow> (string \<times> nat) list \<Rightarrow> (string \<times> nat) list"
where
  "updateHierarchyCounts st key [] counts = counts"
| "updateHierarchyCounts st key ((v, nd) # es) counts =
     (let counts1 = map_set counts (filterId key v) (calculateAffectedCount st key v);
          counts2 = (if children nd \<noteq> [] then updateHierarchyCounts st key (children nd) counts1
                     else counts1)
      in updateHierarchyCounts st key es counts2)"
  by pat_completeness auto
termination
proof (relation "measure (\<lambda>(st, key, m, counts). size_list (size_prod (\<lambda>_. 0) size) m)")
  fix st :: filter_manager and key v :: string and nd :: node and es :: hierarchy_map
    and counts x :: "(string \<times> nat) list"
  show "((st, key, children nd, x), (st, key, (v, nd) # es, counts))
      \<in> measure (\<lambda>(st, key, m, counts). size_list (size_prod (\<lambda>_. 0) size) m)"
    by (cases nd) simp
qed simp_all

definition updateFilterCounts :: "filter_manager \<Rightarrow> filter_manager" where
  "updateFilterCounts st =
     st\<lparr>filterCounts :=
          fold (\<lambda>(key, grp) counts.
                  case values_of grp of
                    Flat vs \<Rightarrow>
                      fold (\<lambda>v cs. map_set cs (filterId key v) (calculateAffectedCount st key v))
                        vs counts
                  | Hierarchical m \<Rightarrow> updateHierarchyCounts st key m counts)
            (filterGroups st) []\<rparr>"

subsection \<open>The debounced notification\<close>

text \<open>
  \<^verbatim>\<open>scheduleFilterUpdate\<close> cancels the update whose timer id \<^verbatim>\<open>pendingFilterUpdate\<close>
  holds and arms a new one (150 ms in the source). What the timer runs when it fires is
  modelled further down, after the operations a listener may call.
\<close>

definition scheduleFilterUpdate :: "filter_manager \<Rightarrow> filter_manager" where
  "scheduleFilterUpdate st =
     (let st1 = (case pendingFilterUpdate st of
                   None \<Rightarrow> st
                 | Some t \<Rightarrow> if t \<noteq> 0 then clearTimeout t st else st);
          r = setTimeout FilterUpdateCallback st1
      in (snd r)\<lparr>pendingFilterUpdate := Some (fst r)\<rparr>)"

definition getFilterLabel :: "string \<Rightarrow> string \<Rightarrow> string" where
  "getFilterLabel filterKey filterValue =
     (let keyLabel =
        (if filterKey = ''scene'' then ''Scene''
         else if filterKey = ''robot'' then ''Robot''
         else if filterKey = ''end'' then ''End Effector''
         else if filterKey = ''action'' then ''Action''
         else if filterKey = ''object'' then ''Object''
         else filterKey)
      in keyLabel @ '': '' @ filterValue)"

subsection \<open>Selection\<close>

text \<open>
  What a call returns to its caller. \<^verbatim>\<open>toggleFilterSelection\<close> has no return statement.
\<close>

datatype js_value = JSUndefined | JSBoolean bool

text \<open>
  \<^verbatim>\<open>toggleFilterSelection(filterKey, filterValue, filterLabel, optionElement)\<close>; the
  label and the option element only reach the tag and the CSS class, which are not
  modelled.
\<close>

definition toggleFilterSelection ::
  "string \<Rightarrow> string \<Rightarrow> filter_manager \<Rightarrow> js_value \<times> filter_manager" where
  "toggleFilterSelection filterKey filterValue st =
     (let fid = filterId filterKey filterValue;
          st1 = (if fid \<in> set (selectedFilters st)
                 then st\<lparr>selectedFilters := set_delete (selectedFilters st) fid\<rparr>
                 else st\<lparr>selectedFilters := set_add (selectedFilters st) fid\<rparr>)
      in (JSUndefined, scheduleFilterUpdate st1))"

definition removeFilterTagById :: "string \<Rightarrow> filter_manager \<Rightarrow> filter_manager" where
  "removeFilterTagById fid st =
     scheduleFilterUpdate (st\<lparr>selectedFilters := set_delete (selectedFilters st) fid\<rparr>)"

definition resetFilters :: "filter_manager \<Rightarrow> filter_manager" where
  "resetFilters st =
     (let st1 = (case pendingFilterUpdate st of
                   None \<Rightarrow> st
                 | Some t \<Rightarrow>
                     if t \<noteq> 0 then (clearTimeout t st)\<lparr>pendingFilterUpdate := None\<rparr> else st)
      in st1\<lparr>selectedFilters := []\<rparr>)"

subsection \<open>The predicate evaluator\<close>

text \<open>
  The first loop of \<^verbatim>\<open>applyFilters\<close>: every selected id is split at \<^verbatim>\<open>':'\<close>, and
  its second part is pushed onto the array kept under its first part. The \<^verbatim>\<open>filters\<close>
  object is an association list in the order the keys were first written; the second
  loop returns at the first key that does not match and the tests have no effect, so its
  result does not depend on the order in which \<^verbatim>\<open>Object.entries\<close> lists the keys.
  Keys that name an inherited property of a plain object (\<^verbatim>\<open>constructor\<close>, \<^verbatim>\<open>toString\<close>
  and the like) are outside the model; none of the facet keys does.
\<close>

type_synonym filters = "(string \<times> string option list) list"

fun push_value :: "filters \<Rightarrow> string \<Rightarrow> string option \<Rightarrow> filters" where
  "push_value [] key v = [(key, [v])]"
| "push_value ((k, vs) # fs) key v =
     (if k = key then (k, vs @ [v]) # fs else (k, vs) # push_value fs key v)"

definition collect_filter :: "string \<Rightarrow> filters \<Rightarrow> filters" where
  "collect_filter fid fs =
     (let kv = destructure2 (split_on CHR '':'' fid) in push_value fs (fst kv) (snd kv))"

definition collect_filters :: "string list \<Rightarrow> filters" where
  "collect_filters selected = fold collect_filter selected []"

text \<open>
  The body of the second loop: the test of one key against its collected values.
  \<^verbatim>\<open>values.includes(x)\<close> is membership, an absent field being \<^verbatim>\<open>undefined\<close>; a key that is
  none of the five leaves \<^verbatim>\<open>match\<close> false.
\<close>

definition match_filter :: "string \<Rightarrow> string option list \<Rightarrow> dataset \<Rightarrow> bool" where
  "match_filter key vals ds =
     (if key = ''scene'' then
        (case scenes ds of None \<Rightarrow> False
         | Some ss \<Rightarrow> list_ex (\<lambda>v. Some v \<in> set vals) ss)
      else if key = ''robot'' then list_ex (\<lambda>r. r \<in> set vals) (robots_of (robot ds))
      else if key = ''end'' then endEffector ds \<in> set vals
      else if key = ''action'' then
        (case actions ds of None \<Rightarrow> False
         | Some acts \<Rightarrow> list_ex (\<lambda>a. Some a \<in> set vals) acts)
      else if key = ''object'' then
        (case objects ds of None \<Rightarrow> False
         | Some objs \<Rightarrow>
             list_ex (\<lambda>obj. list_ex (\<lambda>h. Some h \<in> set vals) (hierarchy obj)) objs)
      else False)"

definition passes :: "string \<Rightarrow> filters \<Rightarrow> dataset \<Rightarrow> bool" where
  "passes searchQuery fs ds =
     (if searchQuery \<noteq> [] \<and> \<not> includes_str (toLowerCase (name ds)) (toLowerCase searchQuery)
      then False
      else list_all (\<lambda>kv. match_filter (fst kv) (snd kv) ds) fs)"

definition applyFilters :: "filter_manager \<Rightarrow> string \<Rightarrow> dataset list" where
  "applyFilters st searchQuery =
     filter (passes searchQuery (collect_filters (selectedFilters st))) (datasets st)"

text \<open>
  The facet rule in the words of the specification. \<open>record_values\<close> are the values
  a record presents for a facet key (for the hierarchical key: every segment of every
  path). A record is admitted by a list of selected (key, value) pairs when every key
  that has a selection has one of its selected values among the record's values.
\<close>

definition record_values :: "string \<Rightarrow> dataset \<Rightarrow> string list" where
  "record_values key ds =
     (if key = ''scene'' then (case scenes ds of None \<Rightarrow> [] | Some ss \<Rightarrow> ss)
      else if key = ''robot'' then
        (case robot ds of RobotAbsent \<Rightarrow> [] | RobotOne r \<Rightarrow> [r] | RobotMany rs \<Rightarrow> rs)
      else if key = ''end'' then (case endEffector ds of None \<Rightarrow> [] | Some e \<Rightarrow> [e])
      else if key = ''action'' then (case actions ds of None \<Rightarrow> [] | Some acts \<Rightarrow> acts)
      else if key = ''object'' then
        (case objects ds of None \<Rightarrow> [] | Some objs \<Rightarrow> concat (map hierarchy objs))
      else [])"

text \<open>
  The same values as the code compares them: each is a string or \<^verbatim>\<open>undefined\<close>, an
  absent robot or end effector being the one value \<^verbatim>\<open>undefined\<close>.
\<close>

definition compared_values :: "string \<Rightarrow> dataset \<Rightarrow> string option list" where
  "compared_values key ds =
     (if key = ''scene'' then (case scenes ds of None \<Rightarrow> [] | Some ss \<Rightarrow> map Some ss)
      else if key = ''robot'' then robots_of (robot ds)
      else if key = ''end'' then [endEffector ds]
      else if key = ''action'' then (case actions ds of None \<Rightarrow> [] | Some acts \<Rightarrow> map Some acts)
      else if key = ''object'' then
        (case objects ds of None \<Rightarrow> [] | Some objs \<Rightarrow> map Some (concat (map hierarchy objs)))
      else [])"

definition admits :: "(string \<times> string) list \<Rightarrow> dataset \<Rightarrow> bool" where
  "admits pairs ds =
     list_all
       (\<lambda>key. list_ex (\<lambda>kv. fst kv = key \<and> snd kv \<in> set (record_values key ds)) pairs)
       (map fst pairs)"

subsection \<open>The filter finder\<close>

text \<open>
  The match list holds the label texts of the matching options; \<open>labels\<close> are the
  labels of all options of the page in document order, which the source reads from the
  DOM.
\<close>

definition clearFilterSearch :: "filter_manager \<Rightarrow> filter_manager" where
  "clearFilterSearch st = st\<lparr>filterFinderMatches := [], filterFinderCurrentIndex := - 1\<rparr>"

definition searchFilterOptions :: "string list \<Rightarrow> string \<Rightarrow> filter_manager \<Rightarrow> filter_manager" where
  "searchFilterOptions labels query st =
     (let st1 = clearFilterSearch st in
      if query = [] then st1
      else
        (let ms = filter (\<lambda>text. includes_str (toLowerCase text) (toLowerCase query)) labels;
             st2 = st1\<lparr>filterFinderMatches := ms\<rparr>
         in if length ms > 0 then st2\<lparr>filterFinderCurrentIndex := 0\<rparr> else st2))"

definition navigateFilterMatch :: "string \<Rightarrow> filter_manager \<Rightarrow> filter_manager" where
  "navigateFilterMatch direction st =
     (if length (filterFinderMatches st) = 0 then st
      else if direction = ''next'' then
        st\<lparr>filterFinderCurrentIndex :=
             js_rem (filterFinderCurrentIndex st + 1) (int (length (filterFinderMatches st)))\<rparr>
      else
        st\<lparr>filterFinderCurrentIndex :=
             js_rem (filterFinderCurrentIndex st - 1 + int (length (filterFinderMatches st)))
               (int (length (filterFinderMatches st)))\<rparr>)"

subsection \<open>Bulk selection\<close>

text \<open>
  The three recursive walks over a hierarchy map. Each visits the entries in insertion
  order, treats the entry, then descends into its children when there are any. They
  differ in the leaf test: \<^verbatim>\<open>node.isLeaf\<close> in \<^verbatim>\<open>selectAllInHierarchy\<close>,
  \<^verbatim>\<open>node.isLeaf || node.children.size === 0\<close> in the other two. The selected id is
  built from the bare segment value; \<^verbatim>\<open>fullPath\<close> is only handed down.
\<close>

definition full_path :: "string \<Rightarrow> string \<Rightarrow> string" where
  "full_path parentPath v = (if parentPath \<noteq> [] then parentPath @ CHR ''>'' # v else v)"

function selectAllInHierarchy ::
  "string \<Rightarrow> hierarchy_map \<Rightarrow> string \<Rightarrow> string list \<Rightarrow> string list"
where
  "selectAllInHierarchy groupKey [] parentPath sel = sel"
| "selectAllInHierarchy groupKey ((v, nd) # es) parentPath sel =
     (let sel1 = (if isLeaf nd then set_add sel (filterId groupKey v) else sel);
          sel2 = (if children nd \<noteq> []
                  then selectAllInHierarchy groupKey (children nd) (full_path parentPath v) sel1
                  else sel1)
      in selectAllInHierarchy groupKey es parentPath sel2)"
  by pat_completeness auto
termination
proof (relation "measure (\<lambda>(g, m, p, sel). size_list (size_prod (\<lambda>_. 0) size) m)")
  fix g v p :: string and nd :: node and es :: hierarchy_map and sel x :: "string list"
  show "((g, children nd, full_path p v, x), (g, (v, nd) # es, p, sel))
      \<in> measure (\<lambda>(g, m, p, sel). size_list (size_prod (\<lambda>_. 0) size) m)"
    by (cases nd) simp
qed simp_all

function selectLeafNodesRecursive ::
  "string \<Rightarrow> hierarchy_map \<Rightarrow> string \<Rightarrow> string list \<Rightarrow> string list"
where
  "selectLeafNodesRecursive groupKey [] parentPath sel = sel"
| "selectLeafNodesRecursive groupKey ((v, nd) # es) parentPath sel =
     (let sel1 = (if isLeaf nd \<or> children nd = [] then set_add sel (filterId groupKey v)
                  else sel);
          sel2 = (if children nd \<noteq> []
                  then selectLeafNodesRecursive groupKey (children nd) (full_path parentPath v) sel1
                  else sel1)
      in selectLeafNodesRecursive groupKey es parentPath sel2)"
  by pat_completeness auto
termination
proof (relation "measure (\<lambda>(g, m, p, sel). size_list (size_prod (\<lambda>_. 0) size) m)")
  fix g v p :: string and nd :: node and es :: hierarchy_map and sel x :: "string list"
  show "((g, children nd, full_path p v, x), (g, (v, nd) # es, p, sel))
      \<in> measure (\<lambda>(g, m, p, sel). size_list (size_prod (\<lambda>_. 0) size) m)"
    by (cases nd) simp
qed simp_all

function clearLeafNodesRecursive ::
  "string \<Rightarrow> hierarchy_map \<Rightarrow> string \<Rightarrow> string list \<Rightarrow> string list"
where
  "clearLeafNodesRecursive groupKey [] parentPath sel = sel"
| "clearLeafNodesRecursive groupKey ((v, nd) # es) parentPath sel =
     (let sel1 = (if isLeaf nd \<or> children nd = [] then set_delete sel (filterId groupKey v)
                  else sel);
          sel2 = (if children nd \<noteq> []
                  then clearLeafNodesRecursive groupKey (children nd) (full_path parentPath v) sel1
                  else sel1)
      in clearLeafNodesRecursive groupKey es parentPath sel2)"
  by pat_completeness auto
termination
proof (relation "measure (\<lambda>(g, m, p, sel). size_list (size_prod (\<lambda>_. 0) size) m)")
  fix g v p :: string and nd :: node and es :: hierarchy_map and sel x :: "string list"
  show "((g, children nd, full_path p v, x), (g, (v, nd) # es, p, sel))
      \<in> measure (\<lambda>(g, m, p, sel). size_list (size_prod (\<lambda>_. 0) size) m)"
    by (cases nd) simp
qed simp_all

text \<open>
  All entries of a hierarchy map, at every depth, in the order the recursive walks meet
  them: an entry, then the entries below it, then its later siblings.
\<close>

function nodes_of :: "hierarchy_map \<Rightarrow> (string \<times> node) list" where
  "nodes_of [] = []"
| "nodes_of ((v, nd) # es) = (v, nd) # nodes_of (children nd) @ nodes_of es"
  by pat_completeness auto
termination
proof (relation "measure (size_list (size_prod (\<lambda>_. 0) size))")
  fix v :: string and nd :: node and es :: hierarchy_map
  show "(children nd, (v, nd) # es) \<in> measure (size_list (size_prod (\<lambda>_. 0) size))"
    by (cases nd) simp
qed simp_all

text \<open>The invariant of built trees: a node without children is flagged as a leaf.\<close>

definition childless_are_leaves :: "hierarchy_map \<Rightarrow> bool" where
  "childless_are_leaves m =
     list_all (\<lambda>e. if children (snd e) = [] then isLeaf (snd e) else True) (nodes_of m)"

text \<open>
  \<^verbatim>\<open>selectAllInGroup\<close> and \<^verbatim>\<open>clearGroup\<close>. A key that names no group returns at once;
  otherwise the update is scheduled once, after the whole group was treated.
\<close>

definition selectAllInGroup :: "string \<Rightarrow> filter_manager \<Rightarrow> filter_manager" where
  "selectAllInGroup groupKey st =
     (case map_of (filterGroups st) groupKey of
        None \<Rightarrow> st
      | Some grp \<Rightarrow>
          scheduleFilterUpdate
            (st\<lparr>selectedFilters :=
                  (case values_of grp of
                     Flat vs \<Rightarrow>
                       fold (\<lambda>v sel. set_add sel (filterId groupKey v)) vs (selectedFilters st)
                   | Hierarchical m \<Rightarrow>
                       selectAllInHierarchy groupKey m [] (selectedFilters st))\<rparr>))"

definition clearGroup :: "string \<Rightarrow> filter_manager \<Rightarrow> filter_manager" where
  "clearGroup groupKey st =
     (let filtersToRemove =
            filter (\<lambda>fid. fst (destructure2 (split_on CHR '':'' fid)) = groupKey)
              (selectedFilters st)
      in scheduleFilterUpdate
           (st\<lparr>selectedFilters := fold (\<lambda>fid sel. set_delete sel fid) filtersToRemove
                                     (selectedFilters st)\<rparr>))"

text \<open>
  \<^verbatim>\<open>findHierarchyNode\<close>: the path is split at \<^verbatim>\<open>'>'\<close> and walked from the root. The
  loop returns the node of the part for which \<^verbatim>\<open>parts.indexOf(part) === parts.length - 1\<close>;
  \<open>parts\<close> stays the whole array while \<open>todo\<close> is what the loop has still to visit.
\<close>

fun find_walk :: "string list \<Rightarrow> hierarchy_map \<Rightarrow> string list \<Rightarrow> node option" where
  "find_walk parts current [] = None"
| "find_walk parts current (part # todo) =
     (case map_of current part of
        None \<Rightarrow> None
      | Some nd \<Rightarrow>
          if indexOf parts part = int (length parts) - 1 then Some nd
          else find_walk parts (children nd) todo)"

definition findHierarchyNode :: "hierarchy_map \<Rightarrow> string \<Rightarrow> node option" where
  "findHierarchyNode hierarchyMap path =
     (let parts = split_on CHR ''>'' path in find_walk parts hierarchyMap parts)"

text \<open>
  The walk that \<^verbatim>\<open>findHierarchyNode\<close> is meant to make, in the words of its contract:
  the tree is walked segment by segment from the root, the node of the last segment is
  the result, and an absent segment gives none.
\<close>

fun resolve_path :: "hierarchy_map \<Rightarrow> string list \<Rightarrow> node option" where
  "resolve_path m [] = None"
| "resolve_path m [p] = map_of m p"
| "resolve_path m (p # q # r) =
     (case map_of m p of None \<Rightarrow> None | Some nd \<Rightarrow> resolve_path (children nd) (q # r))"

text \<open>The ids of the entries of a map, at any depth, that pass the leaf test of the
  two recursive walks below a path.\<close>

definition leaf_ids :: "string \<Rightarrow> hierarchy_map \<Rightarrow> string set" where
  "leaf_ids groupKey m =
     set (map (\<lambda>e. filterId groupKey (fst e))
            (filter (\<lambda>e. isLeaf (snd e) \<or> children (snd e) = []) (nodes_of m)))"

definition selectAllChildrenInHierarchy :: "string \<Rightarrow> string \<Rightarrow> filter_manager \<Rightarrow> filter_manager" where
  "selectAllChildrenInHierarchy groupKey path st =
     (case map_of (filterGroups st) groupKey of
        None \<Rightarrow> st
      | Some grp \<Rightarrow>
          (case values_of grp of
             Flat vs \<Rightarrow> st
           | Hierarchical m \<Rightarrow>
               (case findHierarchyNode m path of
                  None \<Rightarrow> st
                | Some nd \<Rightarrow>
                    scheduleFilterUpdate
                      (st\<lparr>selectedFilters :=
                            selectLeafNodesRecursive groupKey (children nd) path
                              (selectedFilters st)\<rparr>))))"

definition clearAllChildrenInHierarchy :: "string \<Rightarrow> string \<Rightarrow> filter_manager \<Rightarrow> filter_manager" where
  "clearAllChildrenInHierarchy groupKey path st =
     (case map_of (filterGroups st) groupKey of
        None \<Rightarrow> st
      | Some grp \<Rightarrow>
          (case values_of grp of
             Flat vs \<Rightarrow> st
           | Hierarchical m \<Rightarrow>
               (case findHierarchyNode m path of
                  None \<Rightarrow> st
                | Some nd \<Rightarrow>
                    scheduleFilterUpdate
                      (st\<lparr>selectedFilters :=
                            clearLeafNodesRecursive groupKey (children nd) path
                              (selectedFilters st)\<rparr>))))"

subsection \<open>Tooltips\<close>

definition initializeTooltips :: "filter_manager \<Rightarrow> filter_manager" where
  "initializeTooltips st = updateFilterCounts (st\<lparr>tooltipElement := True\<rparr>)"

definition showTooltip :: "string \<Rightarrow> string \<Rightarrow> filter_manager \<Rightarrow> filter_manager" where
  "showTooltip filterKey filterValue st =
     (if \<not> tooltipElement st then st
      else
        (let st1 = (case tooltipTimeout st of
                      None \<Rightarrow> st
                    | Some t \<Rightarrow> if t \<noteq> 0 then clearTimeout t st else st);
             r = setTimeout (TooltipCallback filterKey filterValue) st1
         in (snd r)\<lparr>tooltipTimeout := Some (fst r)\<rparr>))"

definition hideTooltip :: "filter_manager \<Rightarrow> filter_manager" where
  "hideTooltip st =
     (let st1 = (case tooltipTimeout st of
                   None \<Rightarrow> st
                 | Some t \<Rightarrow> if t \<noteq> 0 then (clearTimeout t st)\<lparr>tooltipTimeout := None\<rparr> else st)
      in if tooltipElement st1 then st1\<lparr>tooltipShown := None\<rparr> else st1)"

subsection \<open>Callers, listeners and firing timers\<close>

text \<open>
  The operations of the class, as a caller invokes them. The last two are the methods
  behind the notification, which the class calls itself and a caller can call as well.
\<close>

datatype action =
    BuildFilterGroups
  | ToggleFilterSelection string string
  | RemoveFilterTagById string
  | ResetFilters
  | SearchFilterOptions "string list" string
  | ClearFilterSearch
  | NavigateFilterMatch string
  | SelectAllInGroup string
  | ClearGroup string
  | SelectAllChildrenInHierarchy string string
  | ClearAllChildrenInHierarchy string string
  | InitializeTooltips
  | ShowTooltip string string
  | HideTooltip
  | ScheduleFilterUpdate
  | UpdateFilterCounts

fun perform :: "action \<Rightarrow> filter_manager \<Rightarrow> filter_manager" where
  "perform BuildFilterGroups st = buildFilterGroups st"
| "perform (ToggleFilterSelection k v) st = snd (toggleFilterSelection k v st)"
| "perform (RemoveFilterTagById fid) st = removeFilterTagById fid st"
| "perform ResetFilters st = resetFilters st"
| "perform (SearchFilterOptions labels q) st = searchFilterOptions labels q st"
| "perform ClearFilterSearch st = clearFilterSearch st"
| "perform (NavigateFilterMatch d) st = navigateFilterMatch d st"
| "perform (SelectAllInGroup g) st = selectAllInGroup g st"
| "perform (ClearGroup g) st = clearGroup g st"
| "perform (SelectAllChildrenInHierarchy g p) st = selectAllChildrenInHierarchy g p st"
| "perform (ClearAllChildrenInHierarchy g p) st = clearAllChildrenInHierarchy g p st"
| "perform InitializeTooltips st = initializeTooltips st"
| "perform (ShowTooltip k v) st = showTooltip k v st"
| "perform HideTooltip st = hideTooltip st"
| "perform ScheduleFilterUpdate st = scheduleFilterUpdate st"
| "perform UpdateFilterCounts st = updateFilterCounts st"

text \<open>
  The callback of the debounced update, in the order of the source. First the tooltip
  counts are refreshed if the tooltip element exists and \<^verbatim>\<open>filtersChanged\<close> is
  dispatched (\<open>dispatch_update\<close>). The dispatch runs the listeners of the event at
  once; they are code outside the class, and \<open>listener\<close> is the list of class
  operations they call, in order (empty for listeners that only read). Only after the
  listeners have returned is \<^verbatim>\<open>pendingFilterUpdate\<close> set to null.
\<close>

definition dispatch_update :: "filter_manager \<Rightarrow> filter_manager" where
  "dispatch_update st =
     (let st1 = (if tooltipElement st then updateFilterCounts st else st)
      in st1\<lparr>filtersChangedEvents := Suc (filtersChangedEvents st1)\<rparr>)"

fun run_callback :: "action list \<Rightarrow> timer_callback \<Rightarrow> filter_manager \<Rightarrow> filter_manager" where
  "run_callback listener FilterUpdateCallback st =
     (fold perform listener (dispatch_update st))\<lparr>pendingFilterUpdate := None\<rparr>"
| "run_callback listener (TooltipCallback filterKey filterValue) st =
     st\<lparr>tooltipShown :=
          Some (getFilterLabel filterKey filterValue,
                (case map_of (filterCounts st) (filterId filterKey filterValue) of
                   None \<Rightarrow> 0 | Some n \<Rightarrow> n))\<rparr>"

text \<open>A pending timer fires: it leaves the pending timers and its callback runs.\<close>

definition fire_timer :: "nat \<Rightarrow> action list \<Rightarrow> filter_manager \<Rightarrow> filter_manager" where
  "fire_timer t listener st =
     (case map_of (timers st) t of
        None \<Rightarrow> st
      | Some cb \<Rightarrow> run_callback listener cb (clearTimeout t st))"

text \<open>
  One step of the manager: a caller invokes an operation, or a pending timer fires and
  its callback runs to its end. The last two rules follow the callback of a debounced
  update from the inside. \<open>dispatching\<close> gives the state the listeners see when the
  event is dispatched (the timer gone, the field not yet null), so that an operation
  called from inside a listener is a step from a reachable state as well; \<open>returning\<close>
  is the last statement of the callback, after the listeners have returned. The state
  does not record that a callback is running, so \<open>returning\<close> is a step from every
  state: the relation has every run of the source and some more, and what is proved of
  all its runs holds of the source's.
\<close>

inductive step :: "filter_manager \<Rightarrow> filter_manager \<Rightarrow> bool" where
  called: "step st (perform a st)"
| fired: "step st (fire_timer t listener st)"
| dispatching:
    "map_of (timers st) t = Some FilterUpdateCallback \<Longrightarrow>
     step st (dispatch_update (clearTimeout t st))"
| returning: "step st (st\<lparr>pendingFilterUpdate := None\<rparr>)"

inductive steps :: "filter_manager \<Rightarrow> filter_manager \<Rightarrow> bool" where
  here: "steps st st"
| further: "steps st st' \<Longrightarrow> step st' st'' \<Longrightarrow> steps st st''"

inductive reachable :: "filter_manager \<Rightarrow> bool" where
  constructed: "reachable (new_filter_manager dss)"
| stepped: "reachable st \<Longrightarrow> step st st' \<Longrightarrow> reachable st'"

text \<open>
  The states reached while no listener of \<^verbatim>\<open>filtersChanged\<close> calls back into the
  class.
\<close>

inductive quiet :: "filter_manager \<Rightarrow> bool" where
  quiet_constructed: "quiet (new_filter_manager dss)"
| quiet_called: "quiet st \<Longrightarrow> quiet (perform a st)"
| quiet_fired: "quiet st \<Longrightarrow> quiet (fire_timer t [] st)"

subsection \<open>Pending timers\<close>

definition is_update :: "nat \<times> timer_callback \<Rightarrow> bool" where
  "is_update e = (snd e = FilterUpdateCallback)"

text \<open>The pending debounced updates, and the pending tooltip displays.\<close>

definition pending_updates :: "filter_manager \<Rightarrow> (nat \<times> timer_callback) list" where
  "pending_updates st = filter is_update (timers st)"

definition pending_tooltips :: "filter_manager \<Rightarrow> (nat \<times> timer_callback) list" where
  "pending_tooltips st = filter (\<lambda>e. \<not> is_update e) (timers st)"

text \<open>Every pending debounced update is the one whose id \<^verbatim>\<open>pendingFilterUpdate\<close> holds.\<close>

definition recorded_only :: "filter_manager \<Rightarrow> bool" where
  "recorded_only st =
     list_all (\<lambda>e. pendingFilterUpdate st = Some (fst e)) (pending_updates st)"

text \<open>
  What holds of the timers in every reachable state: timer ids are positive and below
  the next id, and the id in \<^verbatim>\<open>pendingFilterUpdate\<close> is such an id, handed out earlier,
  that no pending tooltip display has.
\<close>

definition ids_ok :: "filter_manager \<Rightarrow> bool" where
  "ids_ok st =
     (0 < nextTimerId st \<and>
      list_all (\<lambda>e. 0 < fst e \<and> fst e < nextTimerId st) (timers st) \<and>
      (case pendingFilterUpdate st of
         None \<Rightarrow> True
       | Some t \<Rightarrow>
           0 < t \<and> t < nextTimerId st \<and>
           list_all (\<lambda>e. if fst e = t then is_update e else True) (timers st)))"

text \<open>
  How the timers of a later state relate to those of an earlier one: ids are handed
  out upwards, and a pending timer was pending before or has a new id.
\<close>

definition later :: "filter_manager \<Rightarrow> filter_manager \<Rightarrow> bool" where
  "later st st' =
     (nextTimerId st \<le> nextTimerId st' \<and>
      list_all (\<lambda>e. e \<in> set (timers st) \<or> nextTimerId st \<le> fst e) (timers st'))"

text \<open>
  What holds in addition while no listener calls back: timer ids are pairwise
  different; the pending debounced update, if there is one, is the timer whose id
  \<^verbatim>\<open>pendingFilterUpdate\<close> holds; and the id in \<^verbatim>\<open>tooltipTimeout\<close> (which stays there
  after its timer fired) is an id handed out earlier and not that of the pending update.
\<close>

definition timers_ok :: "filter_manager \<Rightarrow> bool" where
  "timers_ok st =
     (0 < nextTimerId st \<and> distinct (map fst (timers st)) \<and>
      list_all (\<lambda>e. 0 < fst e \<and> fst e < nextTimerId st) (timers st) \<and>
      map fst (pending_updates st)
        = (case pendingFilterUpdate st of None \<Rightarrow> [] | Some t \<Rightarrow> [t]) \<and>
      (case tooltipTimeout st of
         None \<Rightarrow> True
       | Some t \<Rightarrow> t < nextTimerId st \<and> pendingFilterUpdate st \<noteq> Some t))"

section \<open>Concrete records and managers\<close>

text \<open>A record with every field absent; the records below set what they need.\<close>

definition blank_dataset :: dataset where
  "blank_dataset =
     \<lparr> name = [], scenes = None, robot = RobotAbsent, endEffector = None, actions = None,
       objects = None \<rparr>"

text \<open>
  The records A (scene kitchen, robot arm1) and B (scene kitchen, robot arm2) of the
  specification's example.
\<close>

definition rec_A :: dataset where
  "rec_A =
     blank_dataset\<lparr>name := ''A'', scenes := Some [''kitchen''], robot := RobotOne ''arm1''\<rparr>"

definition rec_B :: dataset where
  "rec_B =
     blank_dataset\<lparr>name := ''B'', scenes := Some [''kitchen''], robot := RobotOne ''arm2''\<rparr>"

text \<open>A record whose scene holds a \<open>:\<close>, and a manager in which that scene is toggled on.\<close>

definition colon_scene_record :: dataset where
  "colon_scene_record = blank_dataset\<lparr>name := ''r1'', scenes := Some [''a:b'']\<rparr>"

definition colon_scene_selected :: filter_manager where
  "colon_scene_selected =
     snd (toggleFilterSelection ''scene'' ''a:b'' (new_filter_manager [colon_scene_record]))"

text \<open>
  Records with the object paths \<open>tools > drill\<close>, \<open>tools\<close>, \<open>tools:power > drill\<close>
  and \<open>tools > saw\<close>, and a manager over the last two in which the object value
  \<open>tools:power\<close> is toggled on.
\<close>

definition tools_drill_record :: dataset where
  "tools_drill_record =
     blank_dataset\<lparr>name := ''r3'', objects := Some [\<lparr>hierarchy = [''tools'', ''drill'']\<rparr>]\<rparr>"

definition tools_record :: dataset where
  "tools_record =
     blank_dataset\<lparr>name := ''r4'', objects := Some [\<lparr>hierarchy = [''tools'']\<rparr>]\<rparr>"

definition power_drill_record :: dataset where
  "power_drill_record =
     blank_dataset\<lparr>name := ''r1'',
       objects := Some [\<lparr>hierarchy = [''tools:power'', ''drill'']\<rparr>]\<rparr>"

definition hand_saw_record :: dataset where
  "hand_saw_record =
     blank_dataset\<lparr>name := ''r2'', objects := Some [\<lparr>hierarchy = [''tools'', ''saw'']\<rparr>]\<rparr>"

definition colon_object_selected :: filter_manager where
  "colon_object_selected =
     snd (toggleFilterSelection ''object'' ''tools:power''
            (new_filter_manager [power_drill_record, hand_saw_record]))"

text \<open>
  A record with the paths \<open>a > b\<close> and \<open>a > c > d\<close>, and a record with the path
  \<open>box > box > lid\<close> together with the manager built over it.
\<close>

definition abcd_record :: dataset where
  "abcd_record =
     blank_dataset\<lparr>name := ''r6'',
       objects := Some [\<lparr>hierarchy = [''a'', ''b'']\<rparr>, \<lparr>hierarchy = [''a'', ''c'', ''d'']\<rparr>]\<rparr>"

definition box_lid_record :: dataset where
  "box_lid_record =
     blank_dataset\<lparr>name := ''r5'', objects := Some [\<lparr>hierarchy = [''box'', ''box'', ''lid'']\<rparr>]\<rparr>"

definition box_manager :: filter_manager where
  "box_manager = buildFilterGroups (new_filter_manager [box_lid_record])"

text \<open>
  A manager with both timers pending: the tooltip of \<open>scene:kitchen\<close> was asked for
  (timer 1), then that filter was toggled on (timer 2).
\<close>

definition both_pending :: filter_manager where
  "both_pending =
     snd (toggleFilterSelection ''scene'' ''kitchen''
       (showTooltip ''scene'' ''kitchen''
         (initializeTooltips (buildFilterGroups (new_filter_manager [rec_A, rec_B])))))"

text \<open>
  A manager whose debounced update fired with a listener that toggles a filter back: the
  listener's call armed timer 2 while the callback of timer 1 was running.
\<close>

definition orphaned_update :: filter_manager where
  "orphaned_update =
     fire_timer 1 [ToggleFilterSelection ''scene'' ''kitchen'']
       (perform (ToggleFilterSelection ''scene'' ''kitchen'') (new_filter_manager [rec_A, rec_B]))"

text \<open>
  A manager after a search for \<open>cu\<close> over four option labels: three of them match.
\<close>

definition three_matches :: filter_manager where
  "three_matches =
     searchFilterOptions [''cup'', ''Cutlery'', ''drawer'', ''cube''] ''cu'' (new_filter_manager [])"

text \<open>
  The (key, value) pairs a \<^verbatim>\<open>filters\<close> object holds; used to reason about the first
  loop of \<^verbatim>\<open>applyFilters\<close>.
\<close>

definition pairs_of :: "filters \<Rightarrow> (string \<times> string option) set" where
  "pairs_of fs = {(k, x). \<exists>vs. (k, vs) \<in> set fs \<and> x \<in> set vs}"

section \<open>Match navigation\<close>

lemma js_rem_nonneg: "0 \<le> a \<Longrightarrow> 0 < n \<Longrightarrow> js_rem a n = a mod n"
  by (simp add: js_rem_def sgn_if)

text \<open>
  Claim C7. With a non-empty match list of length \<open>n\<close> and a current index \<open>i\<close> with
  \<open>0 \<le> i < n\<close>, \<^verbatim>\<open>navigateFilterMatch('next')\<close> sets the index to \<open>(i + 1) mod n\<close> and
  \<^verbatim>\<open>navigateFilterMatch('prev')\<close> sets it to \<open>(i - 1 + n) mod n\<close>, the match list staying as
  it is; with an empty match list the call changes nothing.
\<close>

theorem navigateFilterMatch_wraps:
  "(filterFinderMatches st = [] \<longrightarrow> navigateFilterMatch direction st = st) \<and>
   (filterFinderMatches st \<noteq> [] \<and> 0 \<le> filterFinderCurrentIndex st \<and>
    filterFinderCurrentIndex st < int (length (filterFinderMatches st)) \<longrightarrow>
      filterFinderCurrentIndex (navigateFilterMatch ''next'' st) =
        (filterFinderCurrentIndex st + 1) mod int (length (filterFinderMatches st)) \<and>
      filterFinderCurrentIndex (navigateFilterMatch ''prev'' st) =
        (filterFinderCurrentIndex st - 1 + int (length (filterFinderMatches st)))
          mod int (length (filterFinderMatches st)) \<and>
      filterFinderMatches (navigateFilterMatch ''next'' st) = filterFinderMatches st \<and>
      filterFinderMatches (navigateFilterMatch ''prev'' st) = filterFinderMatches st)"
  by (auto simp: navigateFilterMatch_def js_rem_nonneg)

text \<open>
  The search for \<open>cu\<close> leaves three matches and the index 0; from there \<open>prev\<close>
  lands on index 2 and \<open>next\<close> on index 1. A manager that has not searched has no
  matches and is left as it is.
\<close>

lemma three_matches_eval:
  "filterFinderMatches three_matches = [''cup'', ''Cutlery'', ''cube''] \<and>
   filterFinderCurrentIndex three_matches = 0"
  by code_simp

theorem navigateFilterMatch_wraps_witness:
  "filterFinderMatches three_matches = [''cup'', ''Cutlery'', ''cube''] \<and>
   filterFinderCurrentIndex three_matches = 0 \<and>
   filterFinderCurrentIndex (navigateFilterMatch ''prev'' three_matches) = 2 \<and>
   filterFinderCurrentIndex (navigateFilterMatch ''next'' three_matches) = 1 \<and>
   navigateFilterMatch ''next'' (new_filter_manager []) = new_filter_manager []"
  using navigateFilterMatch_wraps [of three_matches "''next''"]
    navigateFilterMatch_wraps [of "new_filter_manager []" "''next''"] three_matches_eval
  by (simp add: new_filter_manager_def)

section \<open>Toggling one filter\<close>

lemma scheduleFilterUpdate_datasets [simp]: "datasets (scheduleFilterUpdate st) = datasets st"
  by (simp add: scheduleFilterUpdate_def setTimeout_def clearTimeout_def Let_def
      split: option.splits)

lemma scheduleFilterUpdate_selectedFilters [simp]:
  "selectedFilters (scheduleFilterUpdate st) = selectedFilters st"
  by (simp add: scheduleFilterUpdate_def setTimeout_def clearTimeout_def Let_def
      split: option.splits)

lemma scheduleFilterUpdate_filterGroups [simp]:
  "filterGroups (scheduleFilterUpdate st) = filterGroups st"
  by (simp add: scheduleFilterUpdate_def setTimeout_def clearTimeout_def Let_def
      split: option.splits)

text \<open>
  Claim C5, as the code has it. \<^verbatim>\<open>toggleFilterSelection\<close> flips the membership of the id
  \<open>filterKey:filterValue\<close> in the selection and leaves every other id as it was; the call
  itself returns no value (\<^verbatim>\<open>undefined\<close>), so whether the id is now selected is read
  from the selection, not from a result.
\<close>

theorem toggleFilterSelection_flips:
  "fst (toggleFilterSelection filterKey filterValue st) = JSUndefined \<and>
   (filterId filterKey filterValue
      \<in> set (selectedFilters (snd (toggleFilterSelection filterKey filterValue st)))
    \<longleftrightarrow> filterId filterKey filterValue \<notin> set (selectedFilters st)) \<and>
   set (selectedFilters (snd (toggleFilterSelection filterKey filterValue st)))
       - {filterId filterKey filterValue}
     = set (selectedFilters st) - {filterId filterKey filterValue}"
  by (auto simp: toggleFilterSelection_def Let_def set_add_def set_delete_def)

text \<open>
  Claim C5 as stated fails: toggling \<open>scene:kitchen\<close> on a fresh manager selects the
  id, and the value returned is not \<^verbatim>\<open>true\<close>.
\<close>

theorem toggleFilterSelection_returns_no_boolean:
  "filterId ''scene'' ''kitchen'' \<in>
     set (selectedFilters
            (snd (toggleFilterSelection ''scene'' ''kitchen'' (new_filter_manager [])))) \<and>
   fst (toggleFilterSelection ''scene'' ''kitchen'' (new_filter_manager [])) \<noteq> JSBoolean True"
  by (simp add: toggleFilterSelection_def Let_def set_add_def new_filter_manager_def)

section \<open>Affected counts and the selection\<close>

lemma selectAllInGroup_datasets: "datasets (selectAllInGroup g st) = datasets st"
  by (simp add: selectAllInGroup_def split: option.splits)

lemma calculateAffectedCount_length:
  "calculateAffectedCount st k v = length (filter (count_match k v) (datasets st))"
proof -
  have "fold (\<lambda>ds count. if count_match k v ds then Suc count else count) dss n
        = n + length (filter (count_match k v) dss)" for dss n
    by (induction dss arbitrary: n) auto
  then show ?thesis by (simp add: calculateAffectedCount_def)
qed

text \<open>
  Claim C6. \<^verbatim>\<open>calculateAffectedCount\<close> gives the same number under any two selections
  of the same manager, and the same number before and after \<^verbatim>\<open>selectAllInGroup\<close> of any
  group: it is the number of records of the collection that pass the test of that one
  key and value.
\<close>

theorem calculateAffectedCount_ignores_selection:
  "calculateAffectedCount (st\<lparr>selectedFilters := sel1\<rparr>) filterKey filterValue =
     calculateAffectedCount (st\<lparr>selectedFilters := sel2\<rparr>) filterKey filterValue \<and>
   calculateAffectedCount (selectAllInGroup groupKey st) filterKey filterValue =
     calculateAffectedCount st filterKey filterValue \<and>
   calculateAffectedCount st filterKey filterValue =
     length (filter (count_match filterKey filterValue) (datasets st))"
  by (simp add: calculateAffectedCount_length selectAllInGroup_datasets)

section \<open>Parsing the selected ids in applyFilters\<close>

lemma split_on_not_Nil [simp]: "split_on c s \<noteq> []"
  by (induction s) (auto split: list.splits)

lemma split_on_hd: "split_on c s = takeWhile (\<lambda>x. x \<noteq> c) s # tl (split_on c s)"
  by (induction s) (auto split: list.splits)

lemma split_on_append: "c \<notin> set k \<Longrightarrow> split_on c (k @ c # v) = k # split_on c v"
  by (induction k) auto

lemma destructure2_filterId:
  assumes "CHR '':'' \<notin> set k"
  shows "destructure2 (split_on CHR '':'' (filterId k v))
           = (k, Some (takeWhile (\<lambda>c. c \<noteq> CHR '':'') v))"
proof -
  have "split_on CHR '':'' (filterId k v) = k # split_on CHR '':'' v"
    using assms by (simp add: filterId_def split_on_append)
  also have "\<dots> = k # takeWhile (\<lambda>c. c \<noteq> CHR '':'') v # tl (split_on CHR '':'' v)"
    using split_on_hd [of "CHR '':''" v] by simp
  finally show ?thesis by (simp add: destructure2_def)
qed

lemma passes_single: "passes [] [(k, vs)] = match_filter k vs"
  by (rule ext) (simp add: passes_def)

lemma takeWhile_id_iff: "takeWhile P xs = xs \<longleftrightarrow> (\<forall>x\<in>set xs. P x)"
  by (induction xs) auto

lemma facet_keys_colon_free: "k \<in> set facet_keys \<Longrightarrow> CHR '':'' \<notin> set k"
  by (auto simp: facet_keys_def)

lemma groups_of_keys: "map fst (groups_of g) = facet_keys"
  by (simp add: groups_of_def facet_keys_def)

text \<open>
  Claim C10. For each of the five facet keys (none holds a \<open>:\<close>) and every value, the
  pair that \<^verbatim>\<open>applyFilters\<close> reads back from the id \<open>filterKey:filterValue\<close> is the key
  and the part of the value before its first \<open>:\<close>. It is the pair the id was built from
  exactly when the value holds no \<open>:\<close>. With that id as the only selection,
  \<^verbatim>\<open>applyFilters\<close> keeps the records that match the key on that prefix.
\<close>

theorem split_inverts_filterId:
  assumes "filterKey \<in> set facet_keys"
  shows "destructure2 (split_on CHR '':'' (filterId filterKey filterValue))
           = (filterKey, Some (takeWhile (\<lambda>c. c \<noteq> CHR '':'') filterValue)) \<and>
         (destructure2 (split_on CHR '':'' (filterId filterKey filterValue))
            = (filterKey, Some filterValue) \<longleftrightarrow> CHR '':'' \<notin> set filterValue) \<and>
         applyFilters
           (snd (toggleFilterSelection filterKey filterValue (st\<lparr>selectedFilters := []\<rparr>))) []
           = filter (match_filter filterKey [Some (takeWhile (\<lambda>c. c \<noteq> CHR '':'') filterValue)])
               (datasets st)"
proof -
  have k: "CHR '':'' \<notin> set filterKey"
    using assms by (rule facet_keys_colon_free)
  have "(takeWhile (\<lambda>c. c \<noteq> CHR '':'') filterValue = filterValue)
          \<longleftrightarrow> CHR '':'' \<notin> set filterValue"
    by (auto simp: takeWhile_id_iff)
  then show ?thesis
    using k
    by (simp add: destructure2_filterId applyFilters_def toggleFilterSelection_def Let_def
        set_add_def collect_filters_def collect_filter_def passes_single)
qed

theorem split_inverts_filterId_witness:
  "''scene'' \<in> set facet_keys \<and>
   destructure2 (split_on CHR '':'' (filterId ''scene'' ''a:b'')) = (''scene'', Some ''a'') \<and>
   destructure2 (split_on CHR '':'' (filterId ''scene'' ''kitchen''))
     = (''scene'', Some ''kitchen'') \<and>
   applyFilters (snd (toggleFilterSelection ''scene'' ''a:b''
                   ((new_filter_manager [colon_scene_record])\<lparr>selectedFilters := []\<rparr>))) []
     = filter (match_filter ''scene'' [Some ''a'']) [colon_scene_record]"
  using split_inverts_filterId [of "''scene''" "''a:b''" "new_filter_manager [colon_scene_record]"]
    split_inverts_filterId [of "''scene''" "''kitchen''" "new_filter_manager [colon_scene_record]"]
  by (simp add: facet_keys_def new_filter_manager_def)

section \<open>Facet groups in applyFilters\<close>

lemma facet_key_cases:
  assumes "key = ''scene'' \<Longrightarrow> P" and "key = ''robot'' \<Longrightarrow> P" and "key = ''end'' \<Longrightarrow> P"
    and "key = ''action'' \<Longrightarrow> P" and "key = ''object'' \<Longrightarrow> P"
    and "key \<notin> set facet_keys \<Longrightarrow> P"
  shows P
proof (cases "key \<in> set facet_keys")
  case True
  then have "key = ''scene'' \<or> key = ''robot'' \<or> key = ''end'' \<or> key = ''action''
      \<or> key = ''object''"
    by (simp add: facet_keys_def)
  with assms(1-5) show ?thesis by blast
next
  case False
  with assms(6) show ?thesis .
qed

lemma match_filter_compared:
  "match_filter key vals ds \<longleftrightarrow> (\<exists>x\<in>set vals. x \<in> set (compared_values key ds))"
proof (cases key rule: facet_key_cases)
  case 1
  then show ?thesis
    by (auto simp: match_filter_def compared_values_def list_ex_iff split: option.splits)
next
  case 2
  then show ?thesis
    by (auto simp: match_filter_def compared_values_def list_ex_iff)
next
  case 3
  then show ?thesis
    by (auto simp: match_filter_def compared_values_def)
next
  case 4
  then show ?thesis
    by (auto simp: match_filter_def compared_values_def list_ex_iff split: option.splits)
next
  case 5
  then show ?thesis
    by (auto simp: match_filter_def compared_values_def list_ex_iff split: option.splits)
next
  case 6
  then show ?thesis
    by (simp add: match_filter_def compared_values_def facet_keys_def)
qed

lemma compared_values_Some:
  "Some v \<in> set (compared_values key ds) \<longleftrightarrow> v \<in> set (record_values key ds)"
proof (cases key rule: facet_key_cases)
  case 1
  then show ?thesis
    by (auto simp: record_values_def compared_values_def split: option.splits)
next
  case 2
  then show ?thesis
    by (cases "robot ds") (auto simp: record_values_def compared_values_def)
next
  case 3
  then show ?thesis
    by (cases "endEffector ds") (auto simp: record_values_def compared_values_def)
next
  case 4
  then show ?thesis
    by (auto simp: record_values_def compared_values_def split: option.splits)
next
  case 5
  then show ?thesis
    by (auto simp: record_values_def compared_values_def split: option.splits)
next
  case 6
  then show ?thesis
    by (simp add: record_values_def compared_values_def facet_keys_def)
qed

lemma pairs_of_Nil [simp]: "pairs_of [] = {}"
  by (simp add: pairs_of_def)

lemma pairs_of_Cons: "pairs_of ((k, vs) # fs) = Pair k ` set vs \<union> pairs_of fs"
  by (auto simp: pairs_of_def)

lemma pairs_of_push: "pairs_of (push_value fs k v) = insert (k, v) (pairs_of fs)"
  by (induction fs k v rule: push_value.induct) (auto simp: pairs_of_Cons)

lemma keys_push: "fst ` set (push_value fs k v) = insert k (fst ` set fs)"
  by (induction fs k v rule: push_value.induct) auto

lemma distinct_push:
  "distinct (map fst fs) \<Longrightarrow> distinct (map fst (push_value fs k v))"
  by (induction fs k v rule: push_value.induct) (auto simp: keys_push)


lemma list_all_groups:
  assumes "distinct (map fst fs)"
  shows "list_all (\<lambda>kv. \<exists>x\<in>set (snd kv). G (fst kv) x) fs
           \<longleftrightarrow> (\<forall>k\<in>fst ` set fs. \<exists>x. (k, x) \<in> pairs_of fs \<and> G k x)"
proof
  assume l: "list_all (\<lambda>kv. \<exists>x\<in>set (snd kv). G (fst kv) x) fs"
  show "\<forall>k\<in>fst ` set fs. \<exists>x. (k, x) \<in> pairs_of fs \<and> G k x"
  proof
    fix k assume "k \<in> fst ` set fs"
    then obtain vs where "(k, vs) \<in> set fs" by auto
    with l obtain x where "x \<in> set vs" "G k x" by (auto simp: list_all_iff)
    with \<open>(k, vs) \<in> set fs\<close> show "\<exists>x. (k, x) \<in> pairs_of fs \<and> G k x"
      by (auto simp: pairs_of_def)
  qed
next
  assume r: "\<forall>k\<in>fst ` set fs. \<exists>x. (k, x) \<in> pairs_of fs \<and> G k x"
  show "list_all (\<lambda>kv. \<exists>x\<in>set (snd kv). G (fst kv) x) fs"
    unfolding list_all_iff
  proof
    fix kv assume kv: "kv \<in> set fs"
    obtain k vs where e: "kv = (k, vs)" by (cases kv)
    with kv have "k \<in> fst ` set fs" by force
    with r obtain x where x: "(k, x) \<in> pairs_of fs" "G k x" by blast
    then obtain vs' where vs': "(k, vs') \<in> set fs" "x \<in> set vs'"
      by (auto simp: pairs_of_def)
    from eq_key_imp_eq_value [OF assms vs'(1)] kv e have "vs' = vs" by simp
    with vs'(2) x(2) e show "\<exists>x\<in>set (snd kv). G (fst kv) x" by auto
  qed
qed


lemma collect_filter_pair:
  "CHR '':'' \<notin> set k \<Longrightarrow> CHR '':'' \<notin> set v \<Longrightarrow>
   collect_filter (filterId k v) fs = push_value fs k (Some v)"
proof -
  assume k: "CHR '':'' \<notin> set k" and v: "CHR '':'' \<notin> set v"
  from v have "takeWhile (\<lambda>c. c \<noteq> CHR '':'') v = v"
    by (induction v) auto
  with destructure2_filterId [OF k, of v] show ?thesis
    by (simp add: collect_filter_def)
qed

lemma fold_collect_pairs:
  "list_all (\<lambda>kv. CHR '':'' \<notin> set (fst kv) \<and> CHR '':'' \<notin> set (snd kv)) pairs \<Longrightarrow>
   fold collect_filter (map (\<lambda>kv. filterId (fst kv) (snd kv)) pairs) fs
     = fold (\<lambda>kv fs. push_value fs (fst kv) (Some (snd kv))) pairs fs"
  by (induction pairs arbitrary: fs) (simp_all add: collect_filter_pair)

lemma fold_push_facts:
  "distinct (map fst fs) \<Longrightarrow>
   distinct (map fst (fold (\<lambda>kv fs. push_value fs (fst kv) (Some (snd kv))) pairs fs)) \<and>
   fst ` set (fold (\<lambda>kv fs. push_value fs (fst kv) (Some (snd kv))) pairs fs)
     = fst ` set fs \<union> fst ` set pairs \<and>
   pairs_of (fold (\<lambda>kv fs. push_value fs (fst kv) (Some (snd kv))) pairs fs)
     = pairs_of fs \<union> (\<lambda>kv. (fst kv, Some (snd kv))) ` set pairs"
proof (induction pairs arbitrary: fs)
  case Nil
  then show ?case by simp
next
  case (Cons kv pairs)
  from Cons.IH [of "push_value fs (fst kv) (Some (snd kv))"] Cons.prems
  show ?case
    by (simp add: distinct_push keys_push pairs_of_push Un_commute insert_commute)
qed


lemma passes_admits:
  assumes "list_all (\<lambda>kv. CHR '':'' \<notin> set (fst kv) \<and> CHR '':'' \<notin> set (snd kv)) pairs"
  shows "passes [] (collect_filters (map (\<lambda>kv. filterId (fst kv) (snd kv)) pairs)) ds
           \<longleftrightarrow> admits pairs ds"
proof -
  let ?fs = "fold (\<lambda>kv fs. push_value fs (fst kv) (Some (snd kv))) pairs []"
  have fs: "collect_filters (map (\<lambda>kv. filterId (fst kv) (snd kv)) pairs) = ?fs"
    using fold_collect_pairs [OF assms] by (simp add: collect_filters_def)
  from fold_push_facts [of "[]" pairs]
  have d: "distinct (map fst ?fs)" and k: "fst ` set ?fs = fst ` set pairs"
    and p: "pairs_of ?fs = (\<lambda>kv. (fst kv, Some (snd kv))) ` set pairs"
    by simp_all
  have step: "(\<exists>x. (key, x) \<in> (\<lambda>kv. (fst kv, Some (snd kv))) ` set pairs
                  \<and> x \<in> set (compared_values key ds))
      \<longleftrightarrow> (\<exists>kv\<in>set pairs. fst kv = key \<and> snd kv \<in> set (record_values key ds))" for key
  proof
    assume "\<exists>x. (key, x) \<in> (\<lambda>kv. (fst kv, Some (snd kv))) ` set pairs
                  \<and> x \<in> set (compared_values key ds)"
    then obtain kv where "kv \<in> set pairs" "fst kv = key"
      "Some (snd kv) \<in> set (compared_values key ds)"
      by auto
    then show "\<exists>kv\<in>set pairs. fst kv = key \<and> snd kv \<in> set (record_values key ds)"
      using compared_values_Some by blast
  next
    assume "\<exists>kv\<in>set pairs. fst kv = key \<and> snd kv \<in> set (record_values key ds)"
    then obtain kv where kv: "kv \<in> set pairs" "fst kv = key"
      "snd kv \<in> set (record_values key ds)"
      by auto
    then have "Some (snd kv) \<in> set (compared_values key ds)"
      by (simp add: compared_values_Some)
    moreover from kv have "(key, Some (snd kv)) \<in> (\<lambda>kv. (fst kv, Some (snd kv))) ` set pairs"
      by force
    ultimately show "\<exists>x. (key, x) \<in> (\<lambda>kv. (fst kv, Some (snd kv))) ` set pairs
                  \<and> x \<in> set (compared_values key ds)"
      by blast
  qed
  have "passes [] ?fs ds
      \<longleftrightarrow> list_all (\<lambda>kv. \<exists>x\<in>set (snd kv). x \<in> set (compared_values (fst kv) ds)) ?fs"
    by (simp add: passes_def match_filter_compared)
  also have "\<dots> \<longleftrightarrow> (\<forall>key\<in>fst ` set pairs.
      \<exists>x. (key, x) \<in> (\<lambda>kv. (fst kv, Some (snd kv))) ` set pairs \<and> x \<in> set (compared_values key ds))"
    using list_all_groups [OF d, of "\<lambda>key x. x \<in> set (compared_values key ds)"]
    by (simp only: k p)
  also have "\<dots> \<longleftrightarrow> (\<forall>key\<in>fst ` set pairs.
      \<exists>kv\<in>set pairs. fst kv = key \<and> snd kv \<in> set (record_values key ds))"
    by (simp only: step)
  also have "\<dots> \<longleftrightarrow> admits pairs ds"
    by (simp add: admits_def list_all_iff list_ex_iff)
  finally show ?thesis by (simp only: fs)
qed

text \<open>
  The facet rule for selections whose keys and values hold no \<open>:\<close>. With the ids of
  such pairs selected, \<^verbatim>\<open>applyFilters\<close> keeps, in their order, the records that pass
  the text query and that the pairs admit: every key with a selection has one of its
  selected values among the record's values.
\<close>

lemma applyFilters_admits:
  assumes "list_all (\<lambda>kv. CHR '':'' \<notin> set (fst kv) \<and> CHR '':'' \<notin> set (snd kv)) pairs"
    and "selectedFilters st = map (\<lambda>kv. filterId (fst kv) (snd kv)) pairs"
  shows "applyFilters st q
           = filter (\<lambda>ds. (q = [] \<or> includes_str (toLowerCase (name ds)) (toLowerCase q))
                          \<and> admits pairs ds) (datasets st)"
proof -
  have "passes q (collect_filters (map (\<lambda>kv. filterId (fst kv) (snd kv)) pairs)) ds
          \<longleftrightarrow> (q = [] \<or> includes_str (toLowerCase (name ds)) (toLowerCase q))
              \<and> admits pairs ds"
    for ds
    using passes_admits [OF assms(1), of ds] by (auto simp: passes_def)
  then show ?thesis
    unfolding applyFilters_def assms(2) by (intro filter_cong refl)
qed

text \<open>
  The example of the specification: of the records A (scene kitchen, robot arm1) and B
  (scene kitchen, robot arm2), selecting \<open>scene:kitchen\<close> and \<open>robot:arm1\<close> keeps A
  alone, and selecting only \<open>scene:kitchen\<close> keeps both.
\<close>

lemma applyFilters_groups_example:
  "applyFilters (snd (toggleFilterSelection ''robot'' ''arm1''
       (snd (toggleFilterSelection ''scene'' ''kitchen'' (new_filter_manager [rec_A, rec_B]))))) []
     = [rec_A] \<and>
   applyFilters (snd (toggleFilterSelection ''scene'' ''kitchen''
       (new_filter_manager [rec_A, rec_B]))) [] = [rec_A, rec_B]"
  by code_simp

text \<open>
  Claim C1 at a value that holds a \<open>:\<close>. The only record has the scene \<open>a:b\<close>, and
  that scene is toggled on: the selection holds the id \<open>scene:a:b\<close>, the affected count
  of that key and value is 1, and \<^verbatim>\<open>applyFilters\<close> returns no record, although the record
  matches the one selected value of the one key that has a selection.
\<close>

theorem applyFilters_rejects_colon_scene:
  "selectedFilters colon_scene_selected = [filterId ''scene'' ''a:b''] \<and>
   scenes colon_scene_record = Some [''a:b''] \<and>
   calculateAffectedCount colon_scene_selected ''scene'' ''a:b'' = 1 \<and>
   applyFilters colon_scene_selected [] = []"
  by code_simp

section \<open>Hierarchy segments in applyFilters\<close>

text \<open>
  For object values without \<open>:\<close>: the selected values admit a record exactly when
  one of them is a segment, at any depth, of one of the record's paths.
\<close>

lemma admits_object_segments:
  "vs \<noteq> [] \<Longrightarrow>
   admits (map (Pair ''object'') vs) ds
     \<longleftrightarrow> (\<exists>v\<in>set vs. v \<in> set (record_values ''object'' ds))"
  by (cases vs) (auto simp: admits_def list_all_iff list_ex_iff)

lemma record_values_object:
  "set (record_values ''object'' ds)
     = (case objects ds of None \<Rightarrow> {} | Some objs \<Rightarrow> (\<Union>obj\<in>set objs. set (hierarchy obj)))"
  by (auto simp: record_values_def split: option.splits)

text \<open>
  The example of the specification: a record with the path \<open>tools > drill\<close> is kept
  under the selection \<open>object:tools\<close> and under the selection \<open>object:drill\<close>.
\<close>

lemma applyFilters_ancestor_example:
  "applyFilters (snd (toggleFilterSelection ''object'' ''tools''
       (new_filter_manager [tools_drill_record]))) [] = [tools_drill_record] \<and>
   applyFilters (snd (toggleFilterSelection ''object'' ''drill''
       (new_filter_manager [tools_drill_record]))) [] = [tools_drill_record]"
  by code_simp

text \<open>
  Claim C4 at a segment that holds a \<open>:\<close>. One record has the path
  \<open>tools:power > drill\<close>, the other the path \<open>tools > saw\<close>. With \<open>object:tools:power\<close>
  selected, \<^verbatim>\<open>applyFilters\<close> drops the record whose first segment is the selected value
  and keeps the record none of whose segments is.
\<close>

theorem applyFilters_colon_object_segment:
  "selectedFilters colon_object_selected = [filterId ''object'' ''tools:power''] \<and>
   applyFilters colon_object_selected [] = [hand_saw_record]"
  by code_simp

section \<open>Leaf flags in built trees\<close>

lemma nodes_of_append: "nodes_of (a @ b) = nodes_of a @ nodes_of b"
  by (induction a rule: nodes_of.induct) simp_all

lemma childless_Nil [simp]: "childless_are_leaves []"
  by (simp add: childless_are_leaves_def)

lemma childless_Cons [simp]:
  "childless_are_leaves ((v, nd) # es) \<longleftrightarrow>
     (children nd = [] \<longrightarrow> isLeaf nd) \<and> childless_are_leaves (children nd) \<and>
     childless_are_leaves es"
  by (simp add: childless_are_leaves_def)

lemma childless_append [simp]:
  "childless_are_leaves (a @ b) \<longleftrightarrow> childless_are_leaves a \<and> childless_are_leaves b"
  by (simp add: childless_are_leaves_def nodes_of_append)

lemma childless_map_of:
  "childless_are_leaves m \<Longrightarrow> map_of m k = Some nd \<Longrightarrow>
     (children nd = [] \<longrightarrow> isLeaf nd) \<and> childless_are_leaves (children nd)"
  by (induction m) (auto split: if_splits)

lemma childless_map_replace:
  "childless_are_leaves m \<Longrightarrow> childless_are_leaves [(k, nd)] \<Longrightarrow>
     childless_are_leaves (map_replace m k nd)"
  by (induction m k nd rule: map_replace.induct) auto

lemma map_replace_Nil_iff [simp]: "map_replace m k nd = [] \<longleftrightarrow> m = []"
  by (induction m k nd rule: map_replace.induct) auto

lemma addToHierarchy_Nil_iff [simp]: "addToHierarchy m ls = [] \<longleftrightarrow> m = [] \<and> ls = []"
  by (cases ls) (auto split: option.splits)

text \<open>
  One call keeps the invariant: a fresh node is childless exactly when it is created
  for the last segment, and a node that was there only gains children.
\<close>

lemma childless_addToHierarchy:
  "childless_are_leaves m \<Longrightarrow> childless_are_leaves (addToHierarchy m ls)"
proof (induction ls arbitrary: m)
  case Nil
  then show ?case by simp
next
  case (Cons l ls)
  show ?case
  proof (cases "map_of m l")
    case None
    with Cons show ?thesis by simp
  next
    case (Some nd)
    with Cons.prems have nd: "children nd = [] \<longrightarrow> isLeaf nd" "childless_are_leaves (children nd)"
      using childless_map_of by blast+
    have "childless_are_leaves [(l, Node (addToHierarchy (children nd) ls) (isLeaf nd))]"
      using nd Cons.IH [of "children nd"] by simp
    with Cons.prems Some show ?thesis
      by (simp add: childless_map_replace)
  qed
qed

lemma childless_fold_paths:
  "childless_are_leaves m \<Longrightarrow>
   childless_are_leaves (fold (\<lambda>levels m. addToHierarchy m levels) paths m)"
  by (induction paths arbitrary: m) (simp_all add: childless_addToHierarchy)

lemma childless_fold_add:
  "childless_are_leaves m \<Longrightarrow>
   childless_are_leaves (fold (\<lambda>obj m. addToHierarchy m (hierarchy obj)) objs m)"
  by (induction objs arbitrary: m) (simp_all add: childless_addToHierarchy)

lemma childless_collect_dataset:
  "childless_are_leaves (object_values g) \<Longrightarrow>
   childless_are_leaves (object_values (collect_dataset ds g))"
  by (simp add: collect_dataset_def Let_def childless_fold_add
      split: option.splits robot_field.splits)

lemma childless_fold_collect:
  "childless_are_leaves (object_values g) \<Longrightarrow>
   childless_are_leaves (object_values (fold collect_dataset dss g))"
  by (induction dss arbitrary: g) (simp_all add: childless_collect_dataset)

lemma object_tree_buildFilterGroups:
  "object_tree (buildFilterGroups st)
     = object_values (fold collect_dataset (datasets st) empty_groups)"
  by (simp add: object_tree_def buildFilterGroups_def groups_of_def)

lemma childless_built: "childless_are_leaves (object_tree (buildFilterGroups st))"
  by (simp add: object_tree_buildFilterGroups childless_fold_collect empty_groups_def)

lemma select_tests_agree:
  "childless_are_leaves m \<Longrightarrow>
   selectLeafNodesRecursive g m p sel = selectAllInHierarchy g m p sel"
proof (induction g m p sel rule: selectAllInHierarchy.induct)
  case (1 g p sel)
  then show ?case by simp
next
  case (2 g v nd es p sel)
  then show ?case by (auto simp: Let_def)
qed

lemma filter_tests_agree:
  "childless_are_leaves m \<Longrightarrow>
   filter (\<lambda>e. isLeaf (snd e) \<or> children (snd e) = []) (nodes_of m)
     = filter (\<lambda>e. isLeaf (snd e)) (nodes_of m)"
  unfolding childless_are_leaves_def
  by (rule filter_cong) (auto simp: list_all_iff split: if_splits)

text \<open>
  Claim C9. In the tree that \<^verbatim>\<open>buildFilterGroups\<close> makes of any record collection, and in
  any tree grown from the empty map by calls of \<^verbatim>\<open>addToHierarchy\<close>, every node without
  children has \<^verbatim>\<open>isLeaf\<close> set. On the built tree the test
  \<^verbatim>\<open>node.isLeaf || node.children.size === 0\<close> therefore picks the same entries as the test
  \<^verbatim>\<open>node.isLeaf\<close>, and \<^verbatim>\<open>selectLeafNodesRecursive\<close> computes the same selection as
  \<^verbatim>\<open>selectAllInHierarchy\<close>.
\<close>

theorem built_tree_leaf_tests_agree:
  "childless_are_leaves (object_tree (buildFilterGroups st)) \<and>
   childless_are_leaves (fold (\<lambda>levels m. addToHierarchy m levels) paths []) \<and>
   filter (\<lambda>e. isLeaf (snd e) \<or> children (snd e) = [])
       (nodes_of (object_tree (buildFilterGroups st)))
     = filter (\<lambda>e. isLeaf (snd e)) (nodes_of (object_tree (buildFilterGroups st))) \<and>
   selectLeafNodesRecursive groupKey (object_tree (buildFilterGroups st)) parentPath sel
     = selectAllInHierarchy groupKey (object_tree (buildFilterGroups st)) parentPath sel"
  by (simp add: childless_built childless_fold_paths filter_tests_agree select_tests_agree)

section \<open>The leaf flag of a node that is already there\<close>

lemma map_of_map_replace:
  "map_of m k = Some old \<Longrightarrow> map_of (map_replace m k nd) k = Some nd"
  by (induction m k nd rule: map_replace.induct) (auto split: if_splits)

lemma resolve_path_empty [simp]: "resolve_path [] ls = None"
proof (cases ls)
  case Nil
  then show ?thesis by simp
next
  case (Cons p qs)
  then show ?thesis by (cases qs) simp_all
qed

lemma node_rebuild: "Node (children nd) (isLeaf nd) = nd"
  by (cases nd) simp

text \<open>
  After one call with a non-empty path, the walk along that path reaches a node. Its
  flag is the flag it had when it was there before the call, and true when the call
  created it.
\<close>

lemma addToHierarchy_final_node:
  "ls \<noteq> [] \<Longrightarrow>
   \<exists>nd. resolve_path (addToHierarchy m ls) ls = Some nd \<and>
        isLeaf nd = (case resolve_path m ls of None \<Rightarrow> True | Some old \<Rightarrow> isLeaf old)"
proof (induction ls arbitrary: m)
  case Nil
  then show ?case by simp
next
  case (Cons l ls)
  show ?case
  proof (cases ls)
    case Nil
    then show ?thesis
      by (cases "map_of m l") (simp_all add: map_of_map_replace map_add_def node_rebuild)
  next
    case (Cons q r)
    show ?thesis
    proof (cases "map_of m l")
      case None
      from Cons.IH [of "[]"] Cons
      obtain nd where "resolve_path (addToHierarchy [] ls) ls = Some nd" "isLeaf nd"
        by (auto simp del: addToHierarchy.simps)
      with None Cons show ?thesis
        by (simp add: map_add_def)
    next
      case (Some n)
      from Cons.IH [of "children n"] Cons Some show ?thesis
        by (simp add: map_of_map_replace)
    qed
  qed
qed

text \<open>
  Claim C2 at two records, the longer path first. The record with the path
  \<open>tools > drill\<close> creates the node \<open>tools\<close> with \<^verbatim>\<open>isLeaf\<close> false; the record with the
  path \<open>tools\<close> then finds the node and leaves the flag as it is, so the node at the
  final segment of its path is not a leaf after building. In the other order the same
  node is a leaf with a child.
\<close>

theorem addToHierarchy_keeps_existing_flag:
  "object_tree (buildFilterGroups (new_filter_manager [tools_drill_record, tools_record]))
     = [(''tools'', Node [(''drill'', Node [] True)] False)] \<and>
   object_tree (buildFilterGroups (new_filter_manager [tools_record, tools_drill_record]))
     = [(''tools'', Node [(''drill'', Node [] True)] True)]"
  by code_simp

section \<open>Selecting below a path\<close>

lemma indexOf_from_takeWhile:
  "x \<in> set xs \<Longrightarrow> indexOf_from xs x i = int i + int (length (takeWhile (\<lambda>y. y \<noteq> x) xs))"
  by (induction xs arbitrary: i) auto

lemma takeWhile_before:
  "takeWhile (\<lambda>y. y \<noteq> p) (done @ p # rest) = takeWhile (\<lambda>y. y \<noteq> p) done"
  by (induction "done") auto

lemma indexOf_split:
  "indexOf (done @ p # rest) p = int (length (takeWhile (\<lambda>y. y \<noteq> p) done))"
  by (simp add: indexOf_def indexOf_from_takeWhile takeWhile_before)

lemma length_takeWhile_full:
  "length (takeWhile P xs) = length xs \<longleftrightarrow> (\<forall>x\<in>set xs. P x)"
proof (induction xs)
  case Nil
  show ?case by simp
next
  case (Cons x xs)
  have "length (takeWhile P xs) \<le> length xs" by (rule length_takeWhile_le)
  with Cons show ?case by auto
qed

lemma indexOf_not_last:
  assumes "rest \<noteq> []"
  shows "indexOf (done @ p # rest) p \<noteq> int (length (done @ p # rest)) - 1"
proof -
  from assms have "length rest > 0" by simp
  moreover have "length (takeWhile (\<lambda>y. y \<noteq> p) done) \<le> length done"
    by (rule length_takeWhile_le)
  ultimately have "length (takeWhile (\<lambda>y. y \<noteq> p) done) < length done + length rest"
    by linarith
  then show ?thesis by (simp add: indexOf_split)
qed

lemma indexOf_last_iff:
  "indexOf (done @ [p]) p = int (length (done @ [p])) - 1 \<longleftrightarrow> p \<notin> set done"
  using length_takeWhile_full [of "\<lambda>y. y \<noteq> p" "done"]
  by (auto simp: indexOf_split)


lemma find_walk_resolve:
  "todo \<noteq> [] \<Longrightarrow>
   find_walk (done @ todo) cur todo
     = (if last todo \<in> set (done @ butlast todo) then None else resolve_path cur todo)"
proof (induction cur todo arbitrary: "done" rule: resolve_path.induct)
  case (1 m)
  then show ?case by simp
next
  case (2 m p)
  show ?case
  proof (cases "map_of m p")
    case None
    then show ?thesis by simp
  next
    case (Some nd)
    with indexOf_last_iff [of "done" p] show ?thesis by simp
  qed
next
  case (3 m p q r)
  show ?case
  proof (cases "map_of m p")
    case None
    then show ?thesis by simp
  next
    case (Some nd)
    have "find_walk (done @ p # q # r) m (p # q # r)
            = find_walk ((done @ [p]) @ q # r) (children nd) (q # r)"
      using Some indexOf_not_last [of "q # r" "done" p] by simp
    also have "\<dots> = (if last (q # r) \<in> set ((done @ [p]) @ butlast (q # r)) then None
                      else resolve_path (children nd) (q # r))"
      by (rule "3.IH" [OF Some]) simp
    finally show ?thesis using Some by simp
  qed
qed

lemma findHierarchyNode_resolve:
  "findHierarchyNode m path =
     (if last (split_on CHR ''>'' path) \<in> set (butlast (split_on CHR ''>'' path)) then None
      else resolve_path m (split_on CHR ''>'' path))"
  using find_walk_resolve [of "split_on CHR ''>'' path" "[]" m]
  by (simp add: findHierarchyNode_def Let_def)


lemma leaf_ids_Nil [simp]: "leaf_ids g [] = {}"
  by (simp add: leaf_ids_def)

lemma leaf_ids_Cons:
  "leaf_ids g ((v, nd) # es)
     = (if isLeaf nd \<or> children nd = [] then {filterId g v} else {})
       \<union> leaf_ids g (children nd) \<union> leaf_ids g es"
  by (auto simp: leaf_ids_def image_Un)

lemma set_set_add [simp]: "set (set_add xs x) = insert x (set xs)"
  by (auto simp: set_add_def)

lemma set_set_delete [simp]: "set (set_delete xs x) = set xs - {x}"
  by (auto simp: set_delete_def)

lemma set_selectLeafNodesRecursive:
  "set (selectLeafNodesRecursive g m p sel) = set sel \<union> leaf_ids g m"
proof (induction g m p sel rule: selectLeafNodesRecursive.induct)
  case (1 g p sel)
  show ?case by simp
next
  case (2 g v nd es p sel)
  define sel1 where "sel1 = (if isLeaf nd \<or> children nd = [] then set_add sel (filterId g v)
                  else sel)"
  define sel2 where "sel2 = (if children nd \<noteq> []
                  then selectLeafNodesRecursive g (children nd) (full_path p v) sel1
                  else sel1)"
  have s1: "set sel1 = set sel \<union> (if isLeaf nd \<or> children nd = [] then {filterId g v} else {})"
    by (simp add: sel1_def)
  have s2: "set sel2 = set sel1 \<union> leaf_ids g (children nd)"
  proof (cases "children nd = []")
    case True
    then show ?thesis by (simp add: sel2_def)
  next
    case False
    with "2.IH"(1) [OF sel1_def False] show ?thesis by (simp add: sel2_def)
  qed
  have "set (selectLeafNodesRecursive g es p sel2) = set sel2 \<union> leaf_ids g es"
    by (rule "2.IH"(2) [OF sel1_def sel2_def])
  moreover have "selectLeafNodesRecursive g ((v, nd) # es) p sel
      = selectLeafNodesRecursive g es p sel2"
    by (simp add: sel1_def sel2_def Let_def)
  ultimately show ?case
    unfolding leaf_ids_Cons s2 s1 by (simp add: Un_assoc)
qed


lemma set_clearLeafNodesRecursive:
  "set (clearLeafNodesRecursive g m p sel) = set sel - leaf_ids g m"
proof (induction g m p sel rule: clearLeafNodesRecursive.induct)
  case (1 g p sel)
  show ?case by simp
next
  case (2 g v nd es p sel)
  define sel1 where "sel1 = (if isLeaf nd \<or> children nd = [] then set_delete sel (filterId g v)
                  else sel)"
  define sel2 where "sel2 = (if children nd \<noteq> []
                  then clearLeafNodesRecursive g (children nd) (full_path p v) sel1
                  else sel1)"
  have s1: "set sel1 = set sel - (if isLeaf nd \<or> children nd = [] then {filterId g v} else {})"
    by (simp add: sel1_def)
  have s2: "set sel2 = set sel1 - leaf_ids g (children nd)"
  proof (cases "children nd = []")
    case True
    then show ?thesis by (simp add: sel2_def)
  next
    case False
    with "2.IH"(1) [OF sel1_def False] show ?thesis by (simp add: sel2_def)
  qed
  have "set (clearLeafNodesRecursive g es p sel2) = set sel2 - leaf_ids g es"
    by (rule "2.IH"(2) [OF sel1_def sel2_def])
  moreover have "clearLeafNodesRecursive g ((v, nd) # es) p sel
      = clearLeafNodesRecursive g es p sel2"
    by (simp add: sel1_def sel2_def Let_def)
  ultimately show ?case
    unfolding leaf_ids_Cons s2 s1 by auto
qed

text \<open>
  What the two operations below a path do when the last segment of the path does not
  occur earlier in it: an unresolved path changes nothing, a resolved one adds
  (removes) exactly the ids of the entries below the node that pass the leaf test.
\<close>

lemma selectAllChildren_resolved:
  assumes "map_of (filterGroups st) g = Some grp" and "values_of grp = Hierarchical m"
    and "last (split_on CHR ''>'' path) \<notin> set (butlast (split_on CHR ''>'' path))"
  shows "(resolve_path m (split_on CHR ''>'' path) = None \<longrightarrow>
            selectAllChildrenInHierarchy g path st = st \<and>
            clearAllChildrenInHierarchy g path st = st) \<and>
         (\<forall>nd. resolve_path m (split_on CHR ''>'' path) = Some nd \<longrightarrow>
            set (selectedFilters (selectAllChildrenInHierarchy g path st))
              = set (selectedFilters st) \<union> leaf_ids g (children nd) \<and>
            set (selectedFilters (clearAllChildrenInHierarchy g path st))
              = set (selectedFilters st) - leaf_ids g (children nd))"
  using assms
  by (simp add: selectAllChildrenInHierarchy_def clearAllChildrenInHierarchy_def
      findHierarchyNode_resolve set_selectLeafNodesRecursive set_clearLeafNodesRecursive)

text \<open>When the last segment does occur earlier in the path, both operations do nothing.\<close>

lemma selectAllChildren_repeated:
  assumes "last (split_on CHR ''>'' path) \<in> set (butlast (split_on CHR ''>'' path))"
  shows "selectAllChildrenInHierarchy g path st = st \<and>
         clearAllChildrenInHierarchy g path st = st"
  using assms
  by (simp add: selectAllChildrenInHierarchy_def clearAllChildrenInHierarchy_def
      findHierarchyNode_resolve split: option.splits group_values.splits)

text \<open>
  The example of the specification: in the tree \<open>a > {b (leaf), c > {d (leaf)}}\<close>,
  selecting all below \<open>a\<close> selects \<open>b\<close> and \<open>d\<close>, and neither \<open>a\<close> nor \<open>c\<close>.
\<close>

lemma selectAllChildren_example:
  "object_tree (buildFilterGroups (new_filter_manager [abcd_record]))
     = [(''a'', Node [(''b'', Node [] True), (''c'', Node [(''d'', Node [] True)] False)] False)] \<and>
   selectedFilters (selectAllChildrenInHierarchy ''object'' ''a''
       (buildFilterGroups (new_filter_manager [abcd_record])))
     = [''object:b'', ''object:d'']"
  by code_simp

text \<open>
  Claim C3 at a path whose last segment occurs earlier in it. The one record has the
  path \<open>box > box > lid\<close>, so both segments of the path \<open>box>box\<close> are in the tree and
  the node they lead to has the leaf \<open>lid\<close> below it. \<^verbatim>\<open>findHierarchyNode\<close> returns null
  for that path and \<^verbatim>\<open>selectAllChildrenInHierarchy\<close> leaves the manager as it is; for
  the path \<open>box\<close> the leaf is selected.
\<close>

theorem selectAllChildren_repeated_segment:
  "object_tree box_manager
     = [(''box'', Node [(''box'', Node [(''lid'', Node [] True)] False)] False)] \<and>
   findHierarchyNode (object_tree box_manager) ''box>box'' = None \<and>
   selectAllChildrenInHierarchy ''object'' ''box>box'' box_manager = box_manager \<and>
   clearAllChildrenInHierarchy ''object'' ''box>box''
       (box_manager\<lparr>selectedFilters := [''object:lid'']\<rparr>)
     = box_manager\<lparr>selectedFilters := [''object:lid'']\<rparr> \<and>
   selectedFilters (selectAllChildrenInHierarchy ''object'' ''box'' box_manager)
     = [filterId ''object'' ''lid'']"
  by code_simp

section \<open>Cancelling timers on reset\<close>

subsection \<open>The timers while no listener calls back\<close>

lemma timers_ok_cong:
  "timers st' = timers st \<Longrightarrow> nextTimerId st' = nextTimerId st \<Longrightarrow>
   pendingFilterUpdate st' = pendingFilterUpdate st \<Longrightarrow>
   tooltipTimeout st' = tooltipTimeout st \<Longrightarrow> timers_ok st' = timers_ok st"
  by (simp add: timers_ok_def pending_updates_def split: option.splits)

lemma timers_ok_new: "timers_ok (new_filter_manager dss)"
  by (simp add: timers_ok_def pending_updates_def new_filter_manager_def)

lemma update_ids_clear:
  "map fst (filter is_update (filter (\<lambda>e. fst e \<noteq> t) ts))
     = filter (\<lambda>i. i \<noteq> t) (map fst (filter is_update ts))"
  by (induction ts) auto

lemma pending_updates_clearTimeout:
  "map fst (pending_updates (clearTimeout t st))
     = filter (\<lambda>i. i \<noteq> t) (map fst (pending_updates st))"
  by (simp add: pending_updates_def clearTimeout_def update_ids_clear del: filter_filter)

lemma pending_nonzero:
  assumes "timers_ok st" and "pendingFilterUpdate st = Some t"
  shows "0 < t" and "t < nextTimerId st"
proof -
  from assms have "t \<in> set (map fst (filter is_update (timers st)))"
    by (simp add: timers_ok_def pending_updates_def)
  then obtain e where "e \<in> set (timers st)" "fst e = t" by auto
  with assms(1) show "0 < t" and "t < nextTimerId st"
    by (auto simp: timers_ok_def list_all_iff)
qed

text \<open>Clearing any timer keeps the invariant once the field that named it is reset.\<close>

lemma timers_ok_clearTimeout:
  assumes "timers_ok st"
  shows "timers_ok ((clearTimeout t st)\<lparr>pendingFilterUpdate :=
           (if pendingFilterUpdate st = Some t then None else pendingFilterUpdate st)\<rparr>)"
proof -
  let ?st' = "(clearTimeout t st)\<lparr>pendingFilterUpdate :=
           (if pendingFilterUpdate st = Some t then None else pendingFilterUpdate st)\<rparr>"
  have "map fst (pending_updates ?st') = filter (\<lambda>i. i \<noteq> t) (map fst (pending_updates st))"
    using pending_updates_clearTimeout [of t st]
    by (simp add: pending_updates_def clearTimeout_def)
  also have "\<dots> = (case pendingFilterUpdate ?st' of None \<Rightarrow> [] | Some u \<Rightarrow> [u])"
    using assms by (auto simp: timers_ok_def clearTimeout_def split: option.splits)
  finally have a: "map fst (pending_updates ?st')
      = (case pendingFilterUpdate ?st' of None \<Rightarrow> [] | Some u \<Rightarrow> [u])" .
  have b: "distinct (map fst (timers ?st'))"
    using assms by (simp add: timers_ok_def clearTimeout_def distinct_map_filter)
  have c: "list_all (\<lambda>e. 0 < fst e \<and> fst e < nextTimerId ?st') (timers ?st')"
    using assms by (auto simp: timers_ok_def clearTimeout_def list_all_iff)
  have d: "(case tooltipTimeout ?st' of None \<Rightarrow> True
            | Some u \<Rightarrow> u < nextTimerId ?st' \<and> pendingFilterUpdate ?st' \<noteq> Some u)"
    using assms by (auto simp: timers_ok_def clearTimeout_def split: option.splits)
  have e: "0 < nextTimerId ?st'"
    using assms by (simp add: timers_ok_def clearTimeout_def)
  from a b c d e show ?thesis
    unfolding timers_ok_def by blast
qed

lemma timers_ok_clearTimeout_other:
  assumes "timers_ok st" and "pendingFilterUpdate st \<noteq> Some t"
  shows "timers_ok (clearTimeout t st)"
  using timers_ok_clearTimeout [OF assms(1), of t] assms(2)
  by (simp add: clearTimeout_def)

lemma clearTimeout_fields [simp]:
  "nextTimerId (clearTimeout t st) = nextTimerId st"
  "pendingFilterUpdate (clearTimeout t st) = pendingFilterUpdate st"
  "tooltipTimeout (clearTimeout t st) = tooltipTimeout st"
  "selectedFilters (clearTimeout t st) = selectedFilters st"
  "filtersChangedEvents (clearTimeout t st) = filtersChangedEvents st"
  by (simp_all add: clearTimeout_def)

lemma timers_ok_clear_pending:
  assumes "timers_ok st" and "pendingFilterUpdate st = Some t"
  shows "pending_updates (clearTimeout t st) = []"
  using pending_updates_clearTimeout [of t st] assms
  by (simp add: timers_ok_def)

lemma timers_ok_schedule: "timers_ok st \<Longrightarrow> timers_ok (scheduleFilterUpdate st)"
proof -
  assume ok: "timers_ok st"
  define st1 where "st1 = (case pendingFilterUpdate st of None \<Rightarrow> st
                 | Some t \<Rightarrow> if t \<noteq> 0 then clearTimeout t st else st)"
  have upd: "pending_updates st1 = []"
  proof (cases "pendingFilterUpdate st")
    case None
    with ok show ?thesis by (simp add: st1_def timers_ok_def)
  next
    case (Some t)
    with ok pending_nonzero(1) [OF ok Some] show ?thesis
      by (simp add: st1_def timers_ok_clear_pending)
  qed
  have ids: "distinct (map fst (timers st1))"
    "list_all (\<lambda>e. 0 < fst e \<and> fst e < nextTimerId st) (timers st1)"
    "nextTimerId st1 = nextTimerId st" "tooltipTimeout st1 = tooltipTimeout st"
    using ok
    by (auto simp: st1_def timers_ok_def clearTimeout_def list_all_iff distinct_map_filter
        split: option.splits)
  have sched: "scheduleFilterUpdate st
      = st1\<lparr>timers := timers st1 @ [(nextTimerId st1, FilterUpdateCallback)],
             nextTimerId := Suc (nextTimerId st1),
             pendingFilterUpdate := Some (nextTimerId st1)\<rparr>"
    by (simp add: scheduleFilterUpdate_def st1_def setTimeout_def Let_def)
  show ?thesis
    unfolding sched using upd ids ok
    by (auto simp: timers_ok_def pending_updates_def is_update_def list_all_iff
        split: option.splits)
qed


lemma timers_ok_reset: "timers_ok st \<Longrightarrow> timers_ok (resetFilters st)"
proof -
  assume ok: "timers_ok st"
  show ?thesis
  proof (cases "pendingFilterUpdate st")
    case None
    then have "resetFilters st = st\<lparr>selectedFilters := []\<rparr>"
      by (simp add: resetFilters_def)
    with ok timers_ok_cong [of "st\<lparr>selectedFilters := []\<rparr>" st] show ?thesis by simp
  next
    case (Some t)
    let ?c = "(clearTimeout t st)\<lparr>pendingFilterUpdate := None\<rparr>"
    have c: "timers_ok ?c"
      using timers_ok_clearTimeout [OF ok, of t] Some by simp
    have "resetFilters st = ?c\<lparr>selectedFilters := []\<rparr>"
      using Some pending_nonzero(1) [OF ok Some] by (simp add: resetFilters_def)
    with c timers_ok_cong [of "?c\<lparr>selectedFilters := []\<rparr>" ?c] show ?thesis by simp
  qed
qed

lemma timers_ok_showTooltip: "timers_ok st \<Longrightarrow> timers_ok (showTooltip k v st)"
proof -
  assume ok: "timers_ok st"
  define st1 where "st1 = (case tooltipTimeout st of None \<Rightarrow> st
                    | Some t \<Rightarrow> if t \<noteq> 0 then clearTimeout t st else st)"
  have ok1: "timers_ok st1"
  proof (cases "tooltipTimeout st")
    case None
    with ok show ?thesis by (simp add: st1_def)
  next
    case (Some t)
    with ok have "pendingFilterUpdate st \<noteq> Some t" by (simp add: timers_ok_def)
    from timers_ok_clearTimeout_other [OF ok this] ok Some show ?thesis
      by (simp add: st1_def)
  qed
  have shown: "tooltipElement st \<Longrightarrow> showTooltip k v st
      = st1\<lparr>timers := timers st1 @ [(nextTimerId st1, TooltipCallback k v)],
             nextTimerId := Suc (nextTimerId st1),
             tooltipTimeout := Some (nextTimerId st1)\<rparr>"
    by (simp add: showTooltip_def st1_def setTimeout_def Let_def)
  show ?thesis
  proof (cases "tooltipElement st")
    case False
    with ok show ?thesis by (simp add: showTooltip_def)
  next
    case True
    have "pendingFilterUpdate st1 \<noteq> Some (nextTimerId st1)"
    proof
      assume "pendingFilterUpdate st1 = Some (nextTimerId st1)"
      from pending_nonzero(2) [OF ok1 this] show False by simp
    qed
    then show ?thesis
      unfolding shown [OF True] using ok1
      by (auto simp: timers_ok_def pending_updates_def is_update_def list_all_iff
          split: option.splits)
  qed
qed


lemma timers_ok_hideTooltip: "timers_ok st \<Longrightarrow> timers_ok (hideTooltip st)"
proof -
  assume ok: "timers_ok st"
  define st1 where "st1 = (case tooltipTimeout st of None \<Rightarrow> st
       | Some t \<Rightarrow> if t \<noteq> 0 then (clearTimeout t st)\<lparr>tooltipTimeout := None\<rparr> else st)"
  have ok1: "timers_ok st1"
  proof (cases "tooltipTimeout st")
    case None
    with ok show ?thesis by (simp add: st1_def)
  next
    case (Some t)
    with ok have "pendingFilterUpdate st \<noteq> Some t" by (simp add: timers_ok_def)
    from timers_ok_clearTimeout_other [OF ok this]
    have "timers_ok ((clearTimeout t st)\<lparr>tooltipTimeout := None\<rparr>)"
      by (simp add: timers_ok_def pending_updates_def)
    with ok Some show ?thesis by (simp add: st1_def)
  qed
  have "hideTooltip st = (if tooltipElement st1 then st1\<lparr>tooltipShown := None\<rparr> else st1)"
    by (simp add: hideTooltip_def st1_def Let_def)
  with ok1 timers_ok_cong [of "st1\<lparr>tooltipShown := None\<rparr>" st1] show ?thesis by simp
qed

lemma updateFilterCounts_fields [simp]:
  "timers (updateFilterCounts st) = timers st"
  "nextTimerId (updateFilterCounts st) = nextTimerId st"
  "pendingFilterUpdate (updateFilterCounts st) = pendingFilterUpdate st"
  "tooltipTimeout (updateFilterCounts st) = tooltipTimeout st"
  "filtersChangedEvents (updateFilterCounts st) = filtersChangedEvents st"
  "selectedFilters (updateFilterCounts st) = selectedFilters st"
  by (simp_all add: updateFilterCounts_def)

lemma update_timer_is_pending:
  assumes ok: "timers_ok st" and mem: "(t, FilterUpdateCallback) \<in> set (timers st)"
  shows "pendingFilterUpdate st = Some t"
proof -
  from mem have "t \<in> set (map fst (pending_updates st))"
    by (force simp: pending_updates_def is_update_def)
  with ok show ?thesis
    by (auto simp: timers_ok_def split: option.splits)
qed

lemma tooltip_timer_not_pending:
  assumes ok: "timers_ok st" and mem: "(t, TooltipCallback k v) \<in> set (timers st)"
  shows "pendingFilterUpdate st \<noteq> Some t"
proof
  assume p: "pendingFilterUpdate st = Some t"
  with ok have "map fst (filter is_update (timers st)) = [t]"
    by (simp add: timers_ok_def pending_updates_def)
  then have "t \<in> fst ` set (filter is_update (timers st))"
    by (metis list.set_intros(1) set_map)
  then obtain c where e: "(t, c) \<in> set (timers st)" "is_update (t, c)"
    by auto
  from ok have "distinct (map fst (timers st))" by (simp add: timers_ok_def)
  from eq_key_imp_eq_value [OF this e(1) mem] have "c = TooltipCallback k v" .
  with e(2) show False by (simp add: is_update_def)
qed

text \<open>
  A firing timer whose listeners call nothing keeps the invariant: the callback of the
  debounced update sets to null the field that held its own id.
\<close>

lemma timers_ok_fire: "timers_ok st \<Longrightarrow> timers_ok (fire_timer t [] st)"
proof -
  assume ok: "timers_ok st"
  show ?thesis
  proof (cases "map_of (timers st) t")
    case None
    with ok show ?thesis by (simp add: fire_timer_def)
  next
    case (Some cb)
    then have mem: "(t, cb) \<in> set (timers st)" by (rule map_of_SomeD)
    show ?thesis
    proof (cases cb)
      case FilterUpdateCallback
      with mem ok have p: "pendingFilterUpdate st = Some t"
        by (simp add: update_timer_is_pending)
      let ?c = "(clearTimeout t st)\<lparr>pendingFilterUpdate := None\<rparr>"
      have c: "timers_ok ?c"
        using timers_ok_clearTimeout [OF ok, of t] p by simp
      have "timers_ok (fire_timer t [] st) = timers_ok ?c"
        using Some FilterUpdateCallback
        by (intro timers_ok_cong) (simp_all add: fire_timer_def dispatch_update_def Let_def)
      with c show ?thesis by simp
    next
      case (TooltipCallback k v)
      with mem ok have "pendingFilterUpdate st \<noteq> Some t"
        using tooltip_timer_not_pending by blast
      from timers_ok_clearTimeout_other [OF ok this]
      have c: "timers_ok (clearTimeout t st)" .
      have "timers_ok (fire_timer t [] st) = timers_ok (clearTimeout t st)"
        using Some TooltipCallback
        by (intro timers_ok_cong) (simp_all add: fire_timer_def)
      with c show ?thesis by simp
    qed
  qed
qed

lemma timers_ok_selected:
  "timers_ok st \<Longrightarrow> timers_ok (scheduleFilterUpdate (st\<lparr>selectedFilters := sel\<rparr>))"
proof -
  assume "timers_ok st"
  with timers_ok_cong [of "st\<lparr>selectedFilters := sel\<rparr>" st]
  have "timers_ok (st\<lparr>selectedFilters := sel\<rparr>)" by simp
  then show ?thesis by (rule timers_ok_schedule)
qed


subsection \<open>Timer ids in every reachable state\<close>

text \<open>
  A debounced update that fires goes through the state its listeners see, then through
  their calls, and ends with the field set to null.
\<close>

lemma fired_through_dispatching:
  assumes "map_of (timers st) t = Some FilterUpdateCallback"
  shows "fire_timer t listener st
           = (fold perform listener (dispatch_update (clearTimeout t st)))
               \<lparr>pendingFilterUpdate := None\<rparr>"
  using assms by (simp add: fire_timer_def)

text \<open>
  With listeners that call back, a debounced update may pend that \<^verbatim>\<open>pendingFilterUpdate\<close>
  does not hold; what remains true of every reachable state is \<open>ids_ok\<close>.
\<close>

lemma ids_ok_cong:
  "timers st' = timers st \<Longrightarrow> nextTimerId st' = nextTimerId st \<Longrightarrow>
   pendingFilterUpdate st' = pendingFilterUpdate st \<Longrightarrow> ids_ok st' = ids_ok st"
  by (simp add: ids_ok_def split: option.splits)

lemma ids_ok_new: "ids_ok (new_filter_manager dss)"
  by (simp add: ids_ok_def new_filter_manager_def)

lemma ids_ok_clearTimeout: "ids_ok st \<Longrightarrow> ids_ok (clearTimeout t st)"
  by (auto simp: ids_ok_def clearTimeout_def list_all_iff split: option.splits)

lemma ids_ok_unrecord: "ids_ok st \<Longrightarrow> ids_ok (st\<lparr>pendingFilterUpdate := None\<rparr>)"
  by (simp add: ids_ok_def)

lemma ids_ok_setTimeout_update:
  "ids_ok st \<Longrightarrow>
   ids_ok ((snd (setTimeout FilterUpdateCallback st))\<lparr>pendingFilterUpdate := Some (nextTimerId st)\<rparr>)"
  by (auto simp: ids_ok_def setTimeout_def list_all_iff is_update_def)

lemma ids_ok_setTimeout_tooltip:
  "ids_ok st \<Longrightarrow> ids_ok (snd (setTimeout (TooltipCallback k v) st))"
  by (auto simp: ids_ok_def setTimeout_def list_all_iff split: option.splits)

lemma ids_ok_schedule: "ids_ok st \<Longrightarrow> ids_ok (scheduleFilterUpdate st)"
proof -
  assume ok: "ids_ok st"
  define st1 where "st1 = (case pendingFilterUpdate st of None \<Rightarrow> st
                 | Some t \<Rightarrow> if t \<noteq> 0 then clearTimeout t st else st)"
  have "ids_ok st1"
    using ok by (simp add: st1_def ids_ok_clearTimeout split: option.splits)
  from ids_ok_setTimeout_update [OF this] show ?thesis
    by (simp add: scheduleFilterUpdate_def st1_def [symmetric] setTimeout_def Let_def)
qed

lemma ids_ok_selected:
  "ids_ok st \<Longrightarrow> ids_ok (scheduleFilterUpdate (st\<lparr>selectedFilters := sel\<rparr>))"
proof -
  assume "ids_ok st"
  with ids_ok_cong [of "st\<lparr>selectedFilters := sel\<rparr>" st]
  have "ids_ok (st\<lparr>selectedFilters := sel\<rparr>)" by simp
  then show ?thesis by (rule ids_ok_schedule)
qed

lemma ids_ok_reset: "ids_ok st \<Longrightarrow> ids_ok (resetFilters st)"
proof -
  assume ok: "ids_ok st"
  define st1 where "st1 = (case pendingFilterUpdate st of None \<Rightarrow> st
      | Some t \<Rightarrow> if t \<noteq> 0 then (clearTimeout t st)\<lparr>pendingFilterUpdate := None\<rparr> else st)"
  have ok1: "ids_ok st1"
    using ok by (simp add: st1_def ids_ok_clearTimeout ids_ok_unrecord split: option.splits)
  have "resetFilters st = st1\<lparr>selectedFilters := []\<rparr>"
    by (simp add: resetFilters_def st1_def Let_def)
  with ok1 ids_ok_cong [of "st1\<lparr>selectedFilters := []\<rparr>" st1] show ?thesis by simp
qed

lemma ids_ok_showTooltip: "ids_ok st \<Longrightarrow> ids_ok (showTooltip k v st)"
proof -
  assume ok: "ids_ok st"
  define st1 where "st1 = (case tooltipTimeout st of None \<Rightarrow> st
                    | Some t \<Rightarrow> if t \<noteq> 0 then clearTimeout t st else st)"
  have ok1: "ids_ok st1"
    using ok by (simp add: st1_def ids_ok_clearTimeout split: option.splits)
  let ?st2 = "snd (setTimeout (TooltipCallback k v) st1)"
  have ok2: "ids_ok ?st2" using ok1 by (rule ids_ok_setTimeout_tooltip)
  have "showTooltip k v st
          = (if \<not> tooltipElement st then st else ?st2\<lparr>tooltipTimeout := Some (nextTimerId st1)\<rparr>)"
    by (simp add: showTooltip_def st1_def setTimeout_def Let_def)
  with ok ok2 ids_ok_cong [of "?st2\<lparr>tooltipTimeout := Some (nextTimerId st1)\<rparr>" ?st2]
  show ?thesis by simp
qed

lemma ids_ok_hideTooltip: "ids_ok st \<Longrightarrow> ids_ok (hideTooltip st)"
proof -
  assume ok: "ids_ok st"
  define st1 where "st1 = (case tooltipTimeout st of None \<Rightarrow> st
       | Some t \<Rightarrow> if t \<noteq> 0 then (clearTimeout t st)\<lparr>tooltipTimeout := None\<rparr> else st)"
  have ok1: "ids_ok st1"
  proof (cases "tooltipTimeout st")
    case None
    with ok show ?thesis by (simp add: st1_def)
  next
    case (Some t)
    from ids_ok_clearTimeout [OF ok, of t]
      ids_ok_cong [of "(clearTimeout t st)\<lparr>tooltipTimeout := None\<rparr>" "clearTimeout t st"]
    have "ids_ok ((clearTimeout t st)\<lparr>tooltipTimeout := None\<rparr>)" by simp
    with ok Some show ?thesis by (simp add: st1_def)
  qed
  have "hideTooltip st = (if tooltipElement st1 then st1\<lparr>tooltipShown := None\<rparr> else st1)"
    by (simp add: hideTooltip_def st1_def Let_def)
  with ok1 ids_ok_cong [of "st1\<lparr>tooltipShown := None\<rparr>" st1] show ?thesis by simp
qed


text \<open>
  Every operation either leaves the timer fields as they are, or schedules an update
  (most after a change of the selection), or is one of the three operations that handle
  timers themselves.
\<close>

lemma perform_cases:
  assumes same: "\<And>st' :: filter_manager. timers st' = timers st \<Longrightarrow> nextTimerId st' = nextTimerId st \<Longrightarrow>
      pendingFilterUpdate st' = pendingFilterUpdate st \<Longrightarrow>
      tooltipTimeout st' = tooltipTimeout st \<Longrightarrow> Q st'"
    and sched: "\<And>sel. Q (scheduleFilterUpdate (st\<lparr>selectedFilters := sel\<rparr>))"
    and reset: "Q (resetFilters st)"
    and shown: "\<And>k v. Q (showTooltip k v st)"
    and hidden: "Q (hideTooltip st)"
  shows "Q (perform a st)"
proof (cases a)
  case BuildFilterGroups
  then show ?thesis by (simp add: buildFilterGroups_def same)
next
  case (ToggleFilterSelection k v)
  then show ?thesis by (simp add: toggleFilterSelection_def Let_def sched)
next
  case (RemoveFilterTagById fid)
  then show ?thesis by (simp add: removeFilterTagById_def sched)
next
  case ResetFilters
  then show ?thesis by (simp add: reset)
next
  case (SearchFilterOptions labels q)
  then show ?thesis
    by (simp add: searchFilterOptions_def clearFilterSearch_def Let_def same)
next
  case ClearFilterSearch
  then show ?thesis by (simp add: clearFilterSearch_def same)
next
  case (NavigateFilterMatch d)
  then show ?thesis by (simp add: navigateFilterMatch_def same)
next
  case (SelectAllInGroup g)
  then show ?thesis by (simp add: selectAllInGroup_def sched same split: option.splits)
next
  case (ClearGroup g)
  then show ?thesis by (simp add: clearGroup_def Let_def sched)
next
  case (SelectAllChildrenInHierarchy g p)
  then show ?thesis
    by (simp add: selectAllChildrenInHierarchy_def sched same
        split: option.splits group_values.splits)
next
  case (ClearAllChildrenInHierarchy g p)
  then show ?thesis
    by (simp add: clearAllChildrenInHierarchy_def sched same
        split: option.splits group_values.splits)
next
  case InitializeTooltips
  then show ?thesis by (simp add: initializeTooltips_def same)
next
  case (ShowTooltip k v)
  then show ?thesis by (simp add: shown)
next
  case HideTooltip
  then show ?thesis by (simp add: hidden)
next
  case ScheduleFilterUpdate
  with sched [of "selectedFilters st"] show ?thesis by simp
next
  case UpdateFilterCounts
  then show ?thesis by (simp add: same)
qed

lemma ids_ok_perform: "ids_ok st \<Longrightarrow> ids_ok (perform a st)"
proof (rule perform_cases)
  fix st' :: filter_manager
  assume "ids_ok st" "timers st' = timers st" "nextTimerId st' = nextTimerId st"
    "pendingFilterUpdate st' = pendingFilterUpdate st"
  with ids_ok_cong [of st' st] show "ids_ok st'" by simp
qed (simp_all add: ids_ok_selected ids_ok_reset ids_ok_showTooltip ids_ok_hideTooltip)

lemma ids_ok_fold_perform: "ids_ok st \<Longrightarrow> ids_ok (fold perform listener st)"
  by (induction listener arbitrary: st) (simp_all add: ids_ok_perform)

lemma dispatch_update_fields [simp]:
  "timers (dispatch_update st) = timers st"
  "nextTimerId (dispatch_update st) = nextTimerId st"
  "pendingFilterUpdate (dispatch_update st) = pendingFilterUpdate st"
  "tooltipTimeout (dispatch_update st) = tooltipTimeout st"
  "selectedFilters (dispatch_update st) = selectedFilters st"
  "filtersChangedEvents (dispatch_update st) = Suc (filtersChangedEvents st)"
  by (simp_all add: dispatch_update_def Let_def)

lemma ids_ok_dispatch_update: "ids_ok st \<Longrightarrow> ids_ok (dispatch_update st)"
  using ids_ok_cong [of "dispatch_update st" st] by simp

lemma ids_ok_fire: "ids_ok st \<Longrightarrow> ids_ok (fire_timer t listener st)"
proof -
  assume ok: "ids_ok st"
  show ?thesis
  proof (cases "map_of (timers st) t")
    case None
    with ok show ?thesis by (simp add: fire_timer_def)
  next
    case (Some cb)
    have c: "ids_ok (clearTimeout t st)" using ok by (rule ids_ok_clearTimeout)
    show ?thesis
    proof (cases cb)
      case FilterUpdateCallback
      with Some c show ?thesis
        by (simp add: fire_timer_def ids_ok_unrecord ids_ok_fold_perform ids_ok_dispatch_update)
    next
      case (TooltipCallback k v)
      let ?c = "clearTimeout t st"
      from Some TooltipCallback
      have "ids_ok (fire_timer t listener st) = ids_ok ?c"
        by (intro ids_ok_cong) (simp_all add: fire_timer_def)
      with c show ?thesis by simp
    qed
  qed
qed

lemma step_ids_ok: "step st st' \<Longrightarrow> ids_ok st \<Longrightarrow> ids_ok st'"
  by (induction rule: step.induct)
     (simp_all add: ids_ok_perform ids_ok_fire ids_ok_dispatch_update ids_ok_clearTimeout
        ids_ok_unrecord)

lemma reachable_ids_ok: "reachable st \<Longrightarrow> ids_ok st"
  by (induction rule: reachable.induct) (simp_all add: ids_ok_new step_ids_ok)


subsection \<open>Timer ids are never handed out twice\<close>

lemma later_refl: "later st st"
  by (simp add: later_def list_all_iff)

lemma later_trans: "later a b \<Longrightarrow> later b c \<Longrightarrow> later a c"
  unfolding later_def list_all_iff by (meson le_trans)

lemma later_same:
  "timers st' = timers st \<Longrightarrow> nextTimerId st' = nextTimerId st \<Longrightarrow> later st st'"
  by (simp add: later_def list_all_iff)

lemma later_clearTimeout: "later st (clearTimeout t st)"
  by (simp add: later_def clearTimeout_def list_all_iff)

lemma later_setTimeout: "later st (snd (setTimeout cb st))"
  by (simp add: later_def setTimeout_def list_all_iff)

lemma later_schedule: "later st (scheduleFilterUpdate st)"
proof -
  define st1 where "st1 = (case pendingFilterUpdate st of None \<Rightarrow> st
                 | Some t \<Rightarrow> if t \<noteq> 0 then clearTimeout t st else st)"
  have a: "later st st1"
    by (simp add: st1_def later_refl later_clearTimeout split: option.splits)
  let ?st2 = "snd (setTimeout FilterUpdateCallback st1)"
  have b: "later st1 ?st2" by (rule later_setTimeout)
  have "scheduleFilterUpdate st = ?st2\<lparr>pendingFilterUpdate := Some (nextTimerId st1)\<rparr>"
    by (simp add: scheduleFilterUpdate_def st1_def setTimeout_def Let_def)
  then have c: "later ?st2 (scheduleFilterUpdate st)"
    by (simp add: later_same)
  from a b c show ?thesis by (blast intro: later_trans)
qed

lemma later_selected: "later st (scheduleFilterUpdate (st\<lparr>selectedFilters := sel\<rparr>))"
proof -
  have "later st (st\<lparr>selectedFilters := sel\<rparr>)" by (simp add: later_same)
  with later_schedule [of "st\<lparr>selectedFilters := sel\<rparr>"] show ?thesis
    by (blast intro: later_trans)
qed

lemma later_reset: "later st (resetFilters st)"
proof -
  have "list_all (\<lambda>e. e \<in> set (timers st)) (timers (resetFilters st))"
    by (auto simp: resetFilters_def clearTimeout_def list_all_iff split: option.splits)
  moreover have "nextTimerId (resetFilters st) = nextTimerId st"
    by (simp add: resetFilters_def clearTimeout_def split: option.splits)
  ultimately show ?thesis by (simp add: later_def list_all_iff)
qed

lemma later_showTooltip: "later st (showTooltip k v st)"
proof -
  define st1 where "st1 = (case tooltipTimeout st of None \<Rightarrow> st
                    | Some t \<Rightarrow> if t \<noteq> 0 then clearTimeout t st else st)"
  have a: "later st st1"
    by (simp add: st1_def later_refl later_clearTimeout split: option.splits)
  let ?st2 = "snd (setTimeout (TooltipCallback k v) st1)"
  have b: "later st1 ?st2" by (rule later_setTimeout)
  have c: "later ?st2 (?st2\<lparr>tooltipTimeout := Some (nextTimerId st1)\<rparr>)"
    by (simp add: later_same)
  have "showTooltip k v st
          = (if \<not> tooltipElement st then st else ?st2\<lparr>tooltipTimeout := Some (nextTimerId st1)\<rparr>)"
    by (simp add: showTooltip_def st1_def setTimeout_def Let_def)
  with a b c show ?thesis
    by (auto intro: later_trans later_refl)
qed

lemma later_hideTooltip: "later st (hideTooltip st)"
proof -
  have "list_all (\<lambda>e. e \<in> set (timers st)) (timers (hideTooltip st))"
    by (auto simp: hideTooltip_def clearTimeout_def Let_def list_all_iff split: option.splits)
  moreover have "nextTimerId (hideTooltip st) = nextTimerId st"
    by (simp add: hideTooltip_def clearTimeout_def Let_def split: option.splits)
  ultimately show ?thesis by (simp add: later_def list_all_iff)
qed

lemma later_perform: "later st (perform a st)"
  by (rule perform_cases)
     (simp_all add: later_same later_selected later_reset later_showTooltip later_hideTooltip)

lemma later_fold_perform: "later st (fold perform listener st)"
proof (induction listener arbitrary: st)
  case Nil
  show ?case by (simp add: later_refl)
next
  case (Cons a listener)
  from later_perform [of st a] Cons [of "perform a st"] show ?case
    by (auto intro: later_trans)
qed

lemma later_fire: "later st (fire_timer t listener st)"
proof (cases "map_of (timers st) t")
  case None
  then show ?thesis by (simp add: fire_timer_def later_refl)
next
  case (Some cb)
  have c: "later st (clearTimeout t st)" by (rule later_clearTimeout)
  show ?thesis
  proof (cases cb)
    case FilterUpdateCallback
    let ?d = "dispatch_update (clearTimeout t st)"
    have "later (clearTimeout t st) ?d" by (simp add: later_same)
    moreover have "later ?d (fold perform listener ?d)" by (rule later_fold_perform)
    moreover have "later (fold perform listener ?d)
        ((fold perform listener ?d)\<lparr>pendingFilterUpdate := None\<rparr>)"
      by (simp add: later_same)
    ultimately have "later st ((fold perform listener ?d)\<lparr>pendingFilterUpdate := None\<rparr>)"
      using c by (blast intro: later_trans)
    with Some FilterUpdateCallback show ?thesis by (simp add: fire_timer_def)
  next
    case (TooltipCallback k v)
    have "later (clearTimeout t st) (run_callback listener (TooltipCallback k v) (clearTimeout t st))"
      by (simp add: later_same)
    with c Some TooltipCallback show ?thesis
      by (auto simp: fire_timer_def intro: later_trans)
  qed
qed

lemma step_later: "step st st' \<Longrightarrow> later st st'"
proof (induction rule: step.induct)
  case (called st a)
  show ?case by (rule later_perform)
next
  case (fired st t listener)
  show ?case by (rule later_fire)
next
  case (dispatching st t)
  have "later (clearTimeout t st) (dispatch_update (clearTimeout t st))"
    by (simp add: later_same)
  with later_clearTimeout [of st t] show ?case by (blast intro: later_trans)
next
  case (returning st)
  show ?case by (simp add: later_same)
qed

lemma steps_later: "steps st st' \<Longrightarrow> later st st'"
  by (induction rule: steps.induct) (auto intro: later_refl later_trans step_later)

text \<open>A timer id that was handed out and is not pending is never pending again.\<close>

lemma spent_id_stays_spent:
  assumes "steps st st'" and "t < nextTimerId st" and "map_of (timers st) t = None"
  shows "map_of (timers st') t = None"
proof (rule ccontr)
  assume "map_of (timers st') t \<noteq> None"
  then obtain cb where "(t, cb) \<in> set (timers st')"
    by (auto dest: map_of_SomeD)
  with steps_later [OF assms(1)] have "(t, cb) \<in> set (timers st) \<or> nextTimerId st \<le> t"
    by (auto simp: later_def list_all_iff)
  with assms(2) have "(t, cb) \<in> set (timers st)" by simp
  with assms(3) show False
    by (metis map_of_eq_None_iff fst_conv image_eqI)
qed


subsection \<open>States reached while no listener calls back\<close>

lemma timers_ok_perform: "timers_ok st \<Longrightarrow> timers_ok (perform a st)"
proof (rule perform_cases)
  fix st' :: filter_manager
  assume "timers_ok st" "timers st' = timers st" "nextTimerId st' = nextTimerId st"
    "pendingFilterUpdate st' = pendingFilterUpdate st" "tooltipTimeout st' = tooltipTimeout st"
  with timers_ok_cong [of st' st] show "timers_ok st'" by simp
qed (simp_all add: timers_ok_selected timers_ok_reset timers_ok_showTooltip timers_ok_hideTooltip)

lemma quiet_timers_ok: "quiet st \<Longrightarrow> timers_ok st"
proof (induction rule: quiet.induct)
  case (quiet_constructed dss)
  show ?case by (rule timers_ok_new)
next
  case (quiet_called st a)
  then show ?case by (simp add: timers_ok_perform)
next
  case (quiet_fired st t)
  then show ?case by (simp add: timers_ok_fire)
qed

lemma timers_ok_recorded_only: "timers_ok st \<Longrightarrow> recorded_only st"
proof -
  assume ok: "timers_ok st"
  have "pendingFilterUpdate st = Some (fst e)" if "e \<in> set (pending_updates st)" for e
  proof -
    from that have "fst e \<in> set (map fst (pending_updates st))" by simp
    with ok show ?thesis by (auto simp: timers_ok_def split: option.splits)
  qed
  then show ?thesis by (simp add: recorded_only_def list_all_iff)
qed



subsection \<open>What resetFilters does to the timers\<close>

lemma timers_resetFilters:
  assumes "ids_ok st"
  shows "timers (resetFilters st)
           = filter (\<lambda>e. pendingFilterUpdate st \<noteq> Some (fst e)) (timers st)"
proof (cases "pendingFilterUpdate st")
  case None
  then show ?thesis by (simp add: resetFilters_def)
next
  case (Some t)
  with assms have "t \<noteq> 0" by (simp add: ids_ok_def)
  moreover have "filter (\<lambda>e. fst e \<noteq> t) (timers st) = filter (\<lambda>e. t \<noteq> fst e) (timers st)"
    by (rule filter_cong) auto
  ultimately show ?thesis using Some by (simp add: resetFilters_def clearTimeout_def)
qed

lemma tooltips_resetFilters:
  assumes "ids_ok st"
  shows "pending_tooltips (resetFilters st) = pending_tooltips st"
proof -
  have "pendingFilterUpdate st \<noteq> Some (fst e)"
    if "e \<in> set (timers st)" and "\<not> is_update e" for e
  proof
    assume "pendingFilterUpdate st = Some (fst e)"
    with assms that(1) have "is_update e"
      by (auto simp: ids_ok_def list_all_iff)
    with that(2) show False by simp
  qed
  then have "filter (\<lambda>e. \<not> is_update e \<and> pendingFilterUpdate st \<noteq> Some (fst e)) (timers st)
      = filter (\<lambda>e. \<not> is_update e) (timers st)"
    by (intro filter_cong) auto
  then show ?thesis
    by (simp add: pending_tooltips_def timers_resetFilters [OF assms] conj_commute)
qed

lemma updates_resetFilters:
  assumes "ids_ok st" and "recorded_only st"
  shows "pending_updates (resetFilters st) = []"
proof -
  have "\<not> (pendingFilterUpdate st \<noteq> Some (fst e) \<and> is_update e)"
    if "e \<in> set (timers st)" for e
  proof
    assume e: "pendingFilterUpdate st \<noteq> Some (fst e) \<and> is_update e"
    with that have "e \<in> set (pending_updates st)" by (simp add: pending_updates_def)
    with assms(2) have "pendingFilterUpdate st = Some (fst e)"
      unfolding recorded_only_def list_all_iff by blast
    with e show False by simp
  qed
  then show ?thesis
    by (simp add: pending_updates_def timers_resetFilters [OF assms(1)] filter_empty_conv)
qed

text \<open>While no debounced update is pending, a firing timer dispatches no event.\<close>

lemma fire_without_updates:
  assumes "pending_updates st = []"
  shows "pending_updates (fire_timer t listener st) = [] \<and>
         filtersChangedEvents (fire_timer t listener st) = filtersChangedEvents st"
proof (cases "map_of (timers st) t")
  case None
  with assms show ?thesis by (simp add: fire_timer_def)
next
  case (Some cb)
  then have "(t, cb) \<in> set (timers st)" by (rule map_of_SomeD)
  with assms have "\<not> is_update (t, cb)"
    by (auto simp: pending_updates_def filter_empty_conv)
  then obtain k v where cb: "cb = TooltipCallback k v"
    by (cases cb) (simp_all add: is_update_def)
  have "pending_updates (clearTimeout t st) = []"
    using assms by (auto simp: pending_updates_def clearTimeout_def filter_empty_conv)
  with Some cb show ?thesis
    by (simp add: fire_timer_def pending_updates_def clearTimeout_def)
qed

lemma fires_without_updates:
  "pending_updates st = [] \<Longrightarrow>
   filtersChangedEvents (fold (\<lambda>f. fire_timer (fst f) (snd f)) firings st)
     = filtersChangedEvents st"
proof (induction firings arbitrary: st)
  case Nil
  show ?case by simp
next
  case (Cons f firings)
  from fire_without_updates [OF Cons.prems, of "fst f" "snd f"]
    Cons.IH [of "fire_timer (fst f) (snd f) st"]
  show ?case by simp
qed

text \<open>
  Claim C8, as the code has it. In every reachable state, those inside the callback of
  a debounced update and those left by listeners that call back included,
  \<^verbatim>\<open>resetFilters\<close> empties the selection, sets \<^verbatim>\<open>pendingFilterUpdate\<close> to null and cancels
  at once the timer whose id that field held, and no other timer: the timers left are
  all the others. In no state reached afterwards is that timer pending again, and firing
  it does nothing. The tooltip timer is not touched: \<^verbatim>\<open>tooltipTimeout\<close> and the pending
  tooltip displays are as before. If every pending debounced update is the one
  \<^verbatim>\<open>pendingFilterUpdate\<close> holds, none is pending after the reset, and whatever timers
  fire next, with whatever listeners, no \<^verbatim>\<open>filtersChanged\<close> event is dispatched by
  them. That condition holds in every state reached while no listener calls back.
\<close>

theorem resetFilters_cancels_debounce:
  assumes "reachable st"
  shows "selectedFilters (resetFilters st) = [] \<and>
         pendingFilterUpdate (resetFilters st) = None \<and>
         timers (resetFilters st)
           = filter (\<lambda>e. pendingFilterUpdate st \<noteq> Some (fst e)) (timers st) \<and>
         tooltipTimeout (resetFilters st) = tooltipTimeout st \<and>
         pending_tooltips (resetFilters st) = pending_tooltips st \<and>
         (pendingFilterUpdate st = Some t \<and> steps (resetFilters st) st' \<longrightarrow>
            map_of (timers st') t = None \<and> fire_timer t listener st' = st') \<and>
         (recorded_only st \<longrightarrow>
            pending_updates (resetFilters st) = [] \<and>
            filtersChangedEvents
                (fold (\<lambda>f. fire_timer (fst f) (snd f)) firings (resetFilters st))
              = filtersChangedEvents st) \<and>
         (quiet st \<longrightarrow> recorded_only st)"
proof -
  from assms have ok: "ids_ok st" by (rule reachable_ids_ok)
  have a: "selectedFilters (resetFilters st) = [] \<and>
           pendingFilterUpdate (resetFilters st) = None \<and>
           tooltipTimeout (resetFilters st) = tooltipTimeout st \<and>
           filtersChangedEvents (resetFilters st) = filtersChangedEvents st \<and>
           nextTimerId (resetFilters st) = nextTimerId st"
    using ok by (auto simp: resetFilters_def clearTimeout_def ids_ok_def split: option.splits)
  have b: "map_of (timers st') t = None \<and> fire_timer t listener st' = st'"
    if p: "pendingFilterUpdate st = Some t" and s: "steps (resetFilters st) st'"
  proof -
    from ok p have "t < nextTimerId (resetFilters st)"
      using a by (simp add: ids_ok_def)
    moreover have "map_of (timers (resetFilters st)) t = None"
      using p by (force simp: timers_resetFilters [OF ok] map_of_eq_None_iff)
    ultimately have "map_of (timers st') t = None"
      using s by (rule spent_id_stays_spent [rotated])
    then show ?thesis by (simp add: fire_timer_def)
  qed
  have c: "pending_updates (resetFilters st) = [] \<and>
           filtersChangedEvents
               (fold (\<lambda>f. fire_timer (fst f) (snd f)) firings (resetFilters st))
             = filtersChangedEvents st"
    if "recorded_only st"
    using updates_resetFilters [OF ok that] a by (simp add: fires_without_updates)
  have d: "recorded_only st" if "quiet st"
    using that by (intro timers_ok_recorded_only quiet_timers_ok)
  from a b c d timers_resetFilters [OF ok] tooltips_resetFilters [OF ok]
  show ?thesis by blast
qed


text \<open>
  The manager with a tooltip timer and a debounced update pending is reached by four
  calls, with no listener involved.
\<close>

lemma both_pending_performed:
  "both_pending =
     perform (ToggleFilterSelection ''scene'' ''kitchen'')
       (perform (ShowTooltip ''scene'' ''kitchen'')
         (perform InitializeTooltips
           (perform BuildFilterGroups (new_filter_manager [rec_A, rec_B]))))"
  by (simp add: both_pending_def)

lemma both_pending_reachable: "reachable both_pending \<and> quiet both_pending"
  unfolding both_pending_performed
  by (intro conjI reachable.stepped [OF _ step.called] reachable.constructed quiet.intros)

lemma both_pending_eval:
  "timers both_pending = [(1, TooltipCallback ''scene'' ''kitchen''), (2, FilterUpdateCallback)] \<and>
   pendingFilterUpdate both_pending = Some 2 \<and>
   tooltipTimeout both_pending = Some 1 \<and>
   selectedFilters both_pending = [''scene:kitchen''] \<and>
   filtersChangedEvents both_pending = 0 \<and>
   filtersChangedEvents (fire_timer 2 [] both_pending) = 1"
  by code_simp

lemma both_pending_after:
  "steps (resetFilters both_pending)
     (perform (ToggleFilterSelection ''scene'' ''kitchen'') (resetFilters both_pending))"
  by (intro steps.further [OF steps.here step.called])

theorem resetFilters_cancels_debounce_witness:
  "reachable both_pending \<and> quiet both_pending \<and> recorded_only both_pending \<and>
   pendingFilterUpdate both_pending = Some 2 \<and>
   filtersChangedEvents (fire_timer 2 [] both_pending) = 1 \<and>
   steps (resetFilters both_pending)
     (perform (ToggleFilterSelection ''scene'' ''kitchen'') (resetFilters both_pending)) \<and>
   selectedFilters (resetFilters both_pending) = [] \<and>
   pendingFilterUpdate (resetFilters both_pending) = None \<and>
   timers (resetFilters both_pending) = [(1, TooltipCallback ''scene'' ''kitchen'')] \<and>
   pending_updates (resetFilters both_pending) = [] \<and>
   map_of (timers (perform (ToggleFilterSelection ''scene'' ''kitchen'')
                     (resetFilters both_pending))) 2 = None \<and>
   filtersChangedEvents
       (fold (\<lambda>f. fire_timer (fst f) (snd f)) [(2, []), (1, []), (2, [ResetFilters])]
          (resetFilters both_pending)) = 0"
  using resetFilters_cancels_debounce [of both_pending 2
      "perform (ToggleFilterSelection ''scene'' ''kitchen'') (resetFilters both_pending)"
      "[]" "[(2, []), (1, []), (2, [ResetFilters])]"]
    both_pending_reachable both_pending_eval both_pending_after
  by (simp add: is_update_def)

text \<open>
  Claim C8 as stated fails for the tooltip timer: after \<^verbatim>\<open>resetFilters\<close> on that
  manager the tooltip timer is still pending, and when it fires the tooltip is shown.
\<close>

theorem resetFilters_keeps_tooltip_timer:
  "tooltipTimeout both_pending = Some 1 \<and>
   timers (resetFilters both_pending) = [(1, TooltipCallback ''scene'' ''kitchen'')] \<and>
   tooltipTimeout (resetFilters both_pending) = Some 1 \<and>
   tooltipShown (resetFilters both_pending) = None \<and>
   tooltipShown (fire_timer 1 [] (resetFilters both_pending)) = Some (''Scene: kitchen'', 2)"
  by code_simp

subsection \<open>A listener that changes the selection\<close>

text \<open>
  When a listener of \<^verbatim>\<open>filtersChanged\<close> toggles a filter, the callback that dispatched
  the event sets \<^verbatim>\<open>pendingFilterUpdate\<close> to null after the listener has armed a new
  timer. That timer is pending and the field does not hold its id: \<^verbatim>\<open>resetFilters\<close>
  finds nothing to cancel, and the timer fires after the reset.
\<close>

lemma orphaned_update_reachable: "reachable orphaned_update"
  unfolding orphaned_update_def
  by (intro reachable.stepped [OF _ step.fired] reachable.stepped [OF _ step.called]
      reachable.constructed)

lemma resetFilters_leaves_orphaned_update:
  "timers orphaned_update = [(2, FilterUpdateCallback)] \<and>
   pendingFilterUpdate orphaned_update = None \<and>
   filtersChangedEvents orphaned_update = 1 \<and>
   timers (resetFilters orphaned_update) = [(2, FilterUpdateCallback)] \<and>
   filtersChangedEvents (fire_timer 2 [] (resetFilters orphaned_update)) = 2"
  by code_simp

lemma orphaned_update_not_recorded: "\<not> recorded_only orphaned_update"
  using resetFilters_leaves_orphaned_update
  by (simp add: recorded_only_def pending_updates_def is_update_def)

end
